theory Spec2Isabelle
  imports Complex_Main "HOL-Library.Multiset"
begin

section \<open>Voting engine (services/pipeline.py, core/classification/voters.py)\<close>

text \<open>
  Python floats are modelled by \<^typ>\<open>real\<close>: sums and comparisons are exact.
  A Python \<open>dict\<close> whose iteration order matters (\<open>max(d, key=d.get)\<close> returns the
  first maximal key in insertion order) is an association list in insertion order.
\<close>

datatype voter = FileTypeVoter | SemanticVoter | HistoryVoter | SessionVoter | NLIVoter

fun voter_name :: "voter \<Rightarrow> string" where
  "voter_name FileTypeVoter = ''FileType''"
| "voter_name SemanticVoter = ''Semantic''"
| "voter_name HistoryVoter = ''History''"
| "voter_name SessionVoter = ''Session''"
| "voter_name NLIVoter = ''NLI''"

fun weight :: "voter \<Rightarrow> real" where
  "weight FileTypeVoter = 3 / 10"
| "weight SemanticVoter = 6 / 10"
| "weight HistoryVoter = 8 / 10"
| "weight SessionVoter = 5 / 10"
| "weight NLIVoter = 9 / 10"

type_synonym vote = "voter \<times> string \<times> real"

type_synonym scores = "(string \<times> real) list"

text \<open>
  \<open>if category not in scoreboard: scoreboard[category] = 0.0\<close> followed by
  \<open>scoreboard[category] += score\<close>: a new key goes to the end, an old key keeps its place.
\<close>

fun add_score :: "scores \<Rightarrow> string \<Rightarrow> real \<Rightarrow> scores" where
  "add_score [] c s = [(c, 0 + s)]"
| "add_score ((k, v) # sb) c s =
     (if k = c then (k, v + s) # sb else (k, v) # add_score sb c s)"

text \<open>
  \<open>max(d, key=d.get)\<close>: the running best is replaced only by a strictly larger value, so
  the first maximal entry wins. On the empty dict Python raises; here that is \<open>None\<close>.
\<close>

fun max_from :: "string \<times> real \<Rightarrow> scores \<Rightarrow> string \<times> real" where
  "max_from best [] = best"
| "max_from best (kv # rest) = max_from (if snd kv > snd best then kv else best) rest"

fun dict_max :: "scores \<Rightarrow> (string \<times> real) option" where
  "dict_max [] = None"
| "dict_max (kv # rest) = Some (max_from kv rest)"

fun tally :: "scores \<Rightarrow> vote list \<Rightarrow> scores" where
  "tally scoreboard [] = scoreboard"
| "tally scoreboard ((voter, category, confidence) # votes) =
     tally (add_score scoreboard category (weight voter * confidence)) votes"

definition arbitrate :: "vote list \<Rightarrow> string \<times> real \<times> scores" where
  "arbitrate votes =
     (if votes = [] then (''Unknown'', 0, [])
      else let scoreboard = tally [] votes in
        case dict_max scoreboard of
          None \<Rightarrow> (''Unknown'', 0, [])
        | Some (winner, raw_score) \<Rightarrow> (winner, min raw_score 1, scoreboard))"

text \<open>
  What \<open>future.result()\<close> gives for one fast voter: an exception, or the pair the voter
  returned. The fast voters and the NLI model are external; their answers are parameters.
\<close>

datatype voter_outcome = Raised | Returned string real

definition voters :: "voter list" where
  "voters = [FileTypeVoter, SemanticVoter, HistoryVoter, SessionVoter]"

fun collect_votes :: "(voter \<Rightarrow> voter_outcome) \<Rightarrow> voter list \<Rightarrow> vote list" where
  "collect_votes fast [] = []"
| "collect_votes fast (v # vs) =
     (case fast v of
        Raised \<Rightarrow> collect_votes fast vs
      | Returned cat conf \<Rightarrow>
          (if cat \<noteq> ''Unknown'' then (v, cat, conf) # collect_votes fast vs
           else collect_votes fast vs))"

text \<open>
  \<open>NLIVoter.vote\<close>; \<open>reason\<close> is the label \<open>handler.reason_placement\<close> answers for the text
  (it catches its own exceptions and answers \<open>"Unknown"\<close> then).
\<close>

definition nli_vote :: "(string \<Rightarrow> string) \<Rightarrow> string \<Rightarrow> string \<times> real" where
  "nli_vote reason text =
     (if text = [] then (''Unknown'', 0)
      else let cat = reason text in
        if cat \<noteq> ''Unknown'' then (cat, 85 / 100) else (''Unknown'', 0))"

definition NLI_THRESHOLD :: real where
  "NLI_THRESHOLD = 60 / 100"

text \<open>
  The result dictionary of \<open>process_file\<close>, without the keyword list, the embedding and the
  processing time. \<open>nli_calls\<close> counts the calls of \<open>self.nli_voter.vote\<close> and \<open>recorded\<close>
  is the category handed to \<open>session_manager.add_event\<close>, if any.
\<close>

record classification =
  category :: string
  confidence :: real
  method_tag :: string
  votes :: "vote list"
  nli_calls :: nat
  recorded :: "string option"

definition finish :: "string \<Rightarrow> real \<Rightarrow> string \<Rightarrow> vote list \<Rightarrow> nat \<Rightarrow> classification" where
  "finish winner conf meth vs calls =
     \<lparr>category = winner, confidence = conf, method_tag = meth, votes = vs, nli_calls = calls,
      recorded = (if winner \<noteq> ''Unknown'' then Some winner else None)\<rparr>"

definition process_file ::
  "(voter \<Rightarrow> voter_outcome) \<Rightarrow> (string \<Rightarrow> string) \<Rightarrow> string \<Rightarrow> classification" where
  "process_file fast reason text =
     (let vs = collect_votes fast voters in
      case arbitrate vs of (winner, conf, score_map) \<Rightarrow>
        if (winner = ''Unknown'' \<or> conf < NLI_THRESHOLD) \<and> text \<noteq> [] then
          (case nli_vote reason text of (nli_cat, nli_conf) \<Rightarrow>
             if nli_cat \<noteq> ''Unknown'' then
               (let vs' = vs @ [(NLIVoter, nli_cat, nli_conf)] in
                case arbitrate vs' of (winner', conf', score_map') \<Rightarrow>
                  finish winner' conf' ''voting_ensemble_with_nli'' vs' 1)
             else finish winner conf ''voting_ensemble'' vs 1)
        else finish winner conf ''voting_ensemble'' vs 0)"

text \<open>
  \<open>SessionVoter.vote\<close>; \<open>context_dist\<close> is the dictionary answered by
  \<open>session_manager.get_current_session_context()\<close>.
\<close>

definition session_vote :: "scores \<Rightarrow> string \<times> real" where
  "session_vote context_dist =
     (case dict_max context_dist of
        None \<Rightarrow> (''Unknown'', 0)
      | Some (best_cat, conf) \<Rightarrow>
          if conf > 5 / 10 then (best_cat, min conf (9 / 10)) else (''Unknown'', 0))"

text \<open>The spec's scoreboard entry: the sum of weight times confidence over the votes for a category.\<close>

definition category_score :: "vote list \<Rightarrow> string \<Rightarrow> real" where
  "category_score vs c = (\<Sum>(v, c', x) \<leftarrow> filter (\<lambda>(v, c', x). c' = c) vs. weight v * x)"

definition vote_categories :: "vote list \<Rightarrow> string set" where
  "vote_categories vs = (\<lambda>(v, c, x). c) ` set vs"

definition produced :: "(voter \<Rightarrow> voter_outcome) \<Rightarrow> voter \<Rightarrow> bool" where
  "produced fast v = (case fast v of Raised \<Rightarrow> False | Returned cat conf \<Rightarrow> cat \<noteq> ''Unknown'')"

definition fast_ex1 :: "voter \<Rightarrow> voter_outcome" where
  "fast_ex1 v = (case v of FileTypeVoter \<Rightarrow> Returned ''Unknown'' 0 | SemanticVoter \<Rightarrow> Raised
      | HistoryVoter \<Rightarrow> Returned ''Unknown'' 0 | _ \<Rightarrow> Returned ''Unknown'' 0)"

definition fast_semantic :: "real \<Rightarrow> voter \<Rightarrow> voter_outcome" where
  "fast_semantic x v = (case v of SemanticVoter \<Rightarrow> Returned ''Finance'' x | _ \<Rightarrow> Returned ''Unknown'' 0)"

section \<open>Folder clusters (core/models.py)\<close>

text \<open>
  An embedding is a one-dimensional numpy array, here a list of reals. The binary operators
  of numpy broadcast: equal shapes combine pointwise, an array of length 1 combines with
  every element of the other, any other pair of shapes raises \<open>ValueError\<close>. Dividing by
  \<open>n_files = 0\<close> gives infinities or NaN in numpy; a real cannot express them, so the model
  reports \<open>NotFinite\<close> there. An exception leaves \<open>n_files\<close> already incremented, so the error
  carries the cluster as the exception leaves it.
\<close>

type_synonym ndarray = "real list"

datatype np_error = ValueError | NotFinite

definition broadcast :: "(real \<Rightarrow> real \<Rightarrow> real) \<Rightarrow> ndarray \<Rightarrow> ndarray \<Rightarrow> np_error + ndarray" where
  "broadcast f a b =
     (if length a = length b then Inr (map2 f a b)
      else if length a = 1 then Inr (map (f (hd a)) b)
      else if length b = 1 then Inr (map (\<lambda>x. f x (hd b)) a)
      else Inl ValueError)"

record folder_cluster =
  path :: string
  centroid :: "ndarray option"
  name_embedding :: "ndarray option"
  n_files :: int

definition MIN_FILES_FOR_CENTROID :: int where
  "MIN_FILES_FOR_CENTROID = 3"

definition update_centroid ::
  "folder_cluster \<Rightarrow> ndarray \<Rightarrow> np_error \<times> folder_cluster + folder_cluster" where
  "update_centroid self new_embedding =
     (case centroid self of
        None \<Rightarrow> Inr (self\<lparr>centroid := Some new_embedding, n_files := 1\<rparr>)
      | Some old \<Rightarrow>
          (let self' = self\<lparr>n_files := n_files self + 1\<rparr> in
           case broadcast (-) new_embedding old of
             Inl err \<Rightarrow> Inl (err, self')
           | Inr diff \<Rightarrow>
               if n_files self' = 0 then Inl (NotFinite, self')
               else (case broadcast (+) old (map (\<lambda>x. x / of_int (n_files self')) diff) of
                       Inl err \<Rightarrow> Inl (err, self')
                     | Inr new \<Rightarrow> Inr (self'\<lparr>centroid := Some new\<rparr>))))"

definition get_effective_embedding :: "folder_cluster \<Rightarrow> ndarray option" where
  "get_effective_embedding self =
     (if centroid self \<noteq> None \<and> n_files self \<ge> MIN_FILES_FOR_CENTROID then centroid self
      else name_embedding self)"

text \<open>A run of \<open>update_centroid\<close> calls, one per embedding; the first exception ends it.\<close>

fun update_all ::
  "folder_cluster \<Rightarrow> ndarray list \<Rightarrow> np_error \<times> folder_cluster + folder_cluster" where
  "update_all self [] = Inr self"
| "update_all self (e # es) =
     (case update_centroid self e of Inl err \<Rightarrow> Inl err | Inr self' \<Rightarrow> update_all self' es)"

text \<open>
  The spec's arithmetic mean of embeddings of length \<open>d\<close>: component \<open>i\<close> is the sum of the
  components \<open>i\<close> divided by the number of embeddings.
\<close>

definition mean_embedding :: "nat \<Rightarrow> ndarray list \<Rightarrow> ndarray" where
  "mean_embedding d es = map (\<lambda>i. (\<Sum>e\<leftarrow>es. e ! i) / real (length es)) [0..<d]"

definition docs_cluster :: folder_cluster where
  "docs_cluster = \<lparr>path = ''/home/u/Docs'', centroid = None, name_embedding = Some [1, 0], n_files = 0\<rparr>"

section \<open>Semantic memory (services/memory.py)\<close>

text \<open>
  The \<open>"embedding"\<close> value of an entry is either a list of numbers or something else (not a
  list, or a list that does not start with a number); \<open>_rebuild_index\<close> keeps an entry when
  its embedding is a non-empty list that starts with a number. \<open>memory_file\<close> is the content
  of the JSON file, \<open>None\<close> while it does not exist; writing it is taken to succeed (a failed
  write is logged and changes nothing). \<open>np.array\<close> raises on rows of unequal length, which
  leaves the cache empty. \<open>learn\<close> takes the embedding already computed.
\<close>

datatype payload = NumList "real list" | Malformed

fun valid_embedding :: "payload \<Rightarrow> bool" where
  "valid_embedding (NumList xs) = (xs \<noteq> [])"
| "valid_embedding Malformed = False"

record memory_entry =
  e_text :: string
  e_category :: string
  e_embedding :: payload

record semantic_memory =
  data :: "memory_entry list"
  max_entries :: nat
  max_text_chars :: nat
  embeddings_cache :: "real list list option"
  memory_file :: "memory_entry list option"

definition init_memory :: semantic_memory where
  "init_memory = \<lparr>data = [], max_entries = 200, max_text_chars = 160, embeddings_cache = None,
     memory_file = None\<rparr>"

definition save :: "semantic_memory \<Rightarrow> semantic_memory" where
  "save self = self\<lparr>memory_file := Some (data self)\<rparr>"

fun floats :: "payload \<Rightarrow> real list" where
  "floats (NumList xs) = xs"
| "floats Malformed = []"

definition np_array :: "real list list \<Rightarrow> real list list option" where
  "np_array rows = (if \<forall>r \<in> set rows. length r = length (hd rows) then Some rows else None)"

definition rebuild_index :: "semantic_memory \<Rightarrow> semantic_memory" where
  "rebuild_index self =
     (if data self = [] then self\<lparr>embeddings_cache := None\<rparr>
      else
        let clean_data = filter (\<lambda>d. valid_embedding (e_embedding d)) (data self);
            valid_embeddings = map (\<lambda>d. floats (e_embedding d)) clean_data;
            pruned = length (data self) - length clean_data;
            self1 = self\<lparr>data := take (max_entries self) clean_data\<rparr>
        in if valid_embeddings \<noteq> [] then
             (case np_array (take (max_entries self) valid_embeddings) of
                None \<Rightarrow> self1\<lparr>embeddings_cache := None\<rparr>
              | Some cache \<Rightarrow>
                  (let self2 = self1\<lparr>embeddings_cache := Some cache\<rparr>
                   in if pruned \<noteq> 0 then save self2 else self2))
           else self1\<lparr>embeddings_cache := None\<rparr>)"

definition learn :: "semantic_memory \<Rightarrow> string \<Rightarrow> string \<Rightarrow> payload \<Rightarrow> semantic_memory" where
  "learn self text cat embedding =
     (if list_ex (\<lambda>entry. e_text entry = text \<and> e_category entry = cat) (data self)
      then self
      else
        let text' = take (max_text_chars self) text;
            kept = (if length (data self) \<ge> max_entries self then drop 1 (data self)
                    else data self);
            self1 = self\<lparr>data := kept @
                      [\<lparr>e_text = text', e_category = cat, e_embedding = embedding\<rparr>]\<rparr>
        in rebuild_index (save self1))"

text \<open>A sequence of \<open>learn\<close> calls.\<close>

fun learn_all :: "semantic_memory \<Rightarrow> (string \<times> string \<times> payload) list \<Rightarrow> semantic_memory" where
  "learn_all self [] = self"
| "learn_all self ((text, cat, embedding) # calls) =
     learn_all (learn self text cat embedding) calls"

text \<open>A store at capacity: 200 entries with distinct texts.\<close>

definition full_memory :: semantic_memory where
  "full_memory = init_memory\<lparr>data :=
     map (\<lambda>i. \<lparr>e_text = replicate i CHR ''x'', e_category = ''Documents'', e_embedding = NumList [1, 0]\<rparr>)
       [0..<200]\<rparr>"

section \<open>Collision resolution (services/executor.py, services/execution.py)\<close>

text \<open>
  A \<open>pathlib.Path\<close> is its parent directory and its final component. \<open>path_suffix\<close> and
  \<open>path_stem\<close> are pathlib's \<open>suffix\<close> and \<open>stem\<close>: the name is split at its last dot,
  unless that dot is the first or the last character. The filesystem is the set of the paths
  that exist. \<open>str_nat\<close> is the decimal rendering of the counter in the f-string. The
  \<open>while True\<close> loops are partial functions: \<open>None\<close> stands for a loop that never returns.
\<close>

record pure_path =
  parent :: string
  name :: string

fun rfind :: "char \<Rightarrow> string \<Rightarrow> nat option" where
  "rfind c [] = None"
| "rfind c (x # xs) =
     (case rfind c xs of
        Some i \<Rightarrow> Some (Suc i)
      | None \<Rightarrow> if x = c then Some 0 else None)"

definition path_suffix :: "pure_path \<Rightarrow> string" where
  "path_suffix p =
     (case rfind CHR ''.'' (name p) of
        Some i \<Rightarrow> if 0 < i \<and> i < length (name p) - 1 then drop i (name p) else []
      | None \<Rightarrow> [])"

definition path_stem :: "pure_path \<Rightarrow> string" where
  "path_stem p =
     (case rfind CHR ''.'' (name p) of
        Some i \<Rightarrow> if 0 < i \<and> i < length (name p) - 1 then take i (name p) else name p
      | None \<Rightarrow> name p)"

definition digit_char :: "nat \<Rightarrow> char" where
  "digit_char d = ''0123456789'' ! d"

fun str_nat :: "nat \<Rightarrow> string" where
  "str_nat n = (if n < 10 then [digit_char n] else str_nat (n div 10) @ [digit_char (n mod 10)])"

declare str_nat.simps [simp del]

definition versioned :: "pure_path \<Rightarrow> nat \<Rightarrow> pure_path" where
  "versioned dest counter =
     \<lparr>parent = parent dest,
      name = path_stem dest @ ''_v'' @ str_nat counter @ path_suffix dest\<rparr>"

partial_function (option) get_safe_dest_loop ::
  "pure_path set \<Rightarrow> pure_path \<Rightarrow> nat \<Rightarrow> pure_path option" where
  "get_safe_dest_loop fs dest counter =
     (if versioned dest counter \<notin> fs then Some (versioned dest counter)
      else get_safe_dest_loop fs dest (counter + 1))"

definition get_safe_dest :: "pure_path set \<Rightarrow> pure_path \<Rightarrow> pure_path option" where
  "get_safe_dest fs dest = (if dest \<notin> fs then Some dest else get_safe_dest_loop fs dest 2)"

partial_function (option) resolve_collision_loop ::
  "pure_path set \<Rightarrow> pure_path \<Rightarrow> nat \<Rightarrow> pure_path option" where
  "resolve_collision_loop fs dest counter =
     (if versioned dest counter \<notin> fs then Some (versioned dest counter)
      else resolve_collision_loop fs dest (counter + 1))"

definition resolve_collision :: "pure_path set \<Rightarrow> pure_path \<Rightarrow> pure_path option" where
  "resolve_collision fs dest = (if dest \<notin> fs then Some dest else resolve_collision_loop fs dest 1)"

text \<open>
  \<open>k\<close> is the first counter from \<open>start\<close> on whose versioned name is free.
\<close>

definition first_free :: "pure_path set \<Rightarrow> pure_path \<Rightarrow> nat \<Rightarrow> nat \<Rightarrow> bool" where
  "first_free fs dest start k \<longleftrightarrow>
     start \<le> k \<and> versioned dest k \<notin> fs \<and> (\<forall>j. start \<le> j \<and> j < k \<longrightarrow> versioned dest j \<in> fs)"

definition report_pdf :: pure_path where
  "report_pdf = \<lparr>parent = ''/home/u/Documents'', name = ''report.pdf''\<rparr>"

text \<open>Reading a decimal rendering back, to show that distinct counters give distinct names.\<close>

definition digit_val :: "char \<Rightarrow> nat" where
  "digit_val c = of_char c - 48"

definition str_val :: "string \<Rightarrow> nat" where
  "str_val s = foldl (\<lambda>a c. 10 * a + digit_val c) 0 s"

section \<open>Executors (services/execution.py, services/executor.py)\<close>

text \<open>
  One record holds everything the two executors read and write: the files and directories that
  exist, the rows committed to the database of \<open>ExecutionService\<close>, and the in-memory list,
  the JSON file and the cooldown table of \<open>Executor\<close>. What the operating system and the
  listeners answer is a parameter: whether \<open>mkdir\<close> is permitted, how \<open>shutil.move\<close> ends,
  whether the \<open>ACTION_COMPLETED\<close> listeners return, whether the log file can be written. The
  \<open>FileIndex\<close> row and the log messages are left out.

  \<open>shutil.move\<close> renames, and where the rename is refused it copies the file and unlinks the
  source. So it either moves the file, or raises with nothing changed, or raises with the
  destination created and the source still in place (the copy broke off, or the unlink was
  refused). A source that does not exist always raises with nothing changed.

  \<open>execute_move\<close> and \<open>safe_move\<close> answer the worlds they pass through, one per effect, in
  order, with the exception raised (or the boolean returned). A primary key already present
  makes the first commit fail before anything else happens.
\<close>

record transaction =
  tx_id :: string
  src_path :: pure_path
  dest_path :: pure_path
  action_type :: string
  status :: string
  rollback_data :: pure_path

record log_entry =
  tx_action :: string
  tx_src :: pure_path
  tx_dest :: pure_path
  tx_timestamp :: real

record world =
  files :: "pure_path set"
  dirs :: "string set"
  db :: "transaction list"
  transactions :: "log_entry list"
  transaction_log_file :: "log_entry list option"
  recently_moved :: "(pure_path \<times> real) list"

datatype move_answer = Moved | Refused | LeftCopy

record os_outcome =
  mkdir_ok :: bool
  move_result :: move_answer
  notify_ok :: bool
  save_ok :: bool

datatype move_error = IntegrityError | OSError | NotifyError

definition shutil_move ::
  "move_answer \<Rightarrow> pure_path set \<Rightarrow> pure_path \<Rightarrow> pure_path \<Rightarrow> pure_path set \<times> bool" where
  "shutil_move answer fs src dst =
     (if src \<notin> fs then (fs, False)
      else case answer of
             Moved \<Rightarrow> (insert dst (fs - {src}), True)
           | Refused \<Rightarrow> (fs, False)
           | LeftCopy \<Rightarrow> (insert dst fs, False))"

definition set_status :: "string \<Rightarrow> string \<Rightarrow> world \<Rightarrow> world" where
  "set_status i s w = w\<lparr>db := map (\<lambda>t. if tx_id t = i then t\<lparr>status := s\<rparr> else t) (db w)\<rparr>"

definition execute_move ::
  "os_outcome \<Rightarrow> string \<Rightarrow> world \<Rightarrow> pure_path \<Rightarrow> pure_path \<Rightarrow>
     (world list \<times> move_error option) option" where
  "execute_move env new_id w src dest =
     (case resolve_collision (files w) dest of
        None \<Rightarrow> None
      | Some final_dest \<Rightarrow>
          Some
            (let tx = \<lparr>tx_id = new_id, src_path = src, dest_path = final_dest,
                       action_type = ''move'', status = ''pending'', rollback_data = src\<rparr>
             in if new_id \<in> tx_id ` set (db w) then ([w], Some IntegrityError)
                else
                  let w1 = w\<lparr>db := db w @ [tx]\<rparr> in
                  if \<not> mkdir_ok env then ([w, w1, set_status new_id ''failed'' w1], Some OSError)
                  else
                    let w2 = w1\<lparr>dirs := insert (parent final_dest) (dirs w1)\<rparr> in
                    case shutil_move (move_result env) (files w2) src final_dest of
                      (fs', moved) \<Rightarrow>
                        let w3 = w2\<lparr>files := fs'\<rparr> in
                        if \<not> moved then ([w, w1, w2, w3, set_status new_id ''failed'' w3], Some OSError)
                        else
                          let w4 = set_status new_id ''committed'' w3
                          in if notify_ok env then ([w, w1, w2, w3, w4], None)
                             else ([w, w1, w2, w3, w4, set_status new_id ''failed'' w4],
                                   Some NotifyError)))"

definition save_transactions :: "os_outcome \<Rightarrow> world \<Rightarrow> world" where
  "save_transactions env w =
     (if save_ok env then w\<lparr>transaction_log_file := Some (transactions w)\<rparr> else w)"

definition safe_move ::
  "os_outcome \<Rightarrow> bool \<Rightarrow> real \<Rightarrow> world \<Rightarrow> pure_path \<Rightarrow> string \<Rightarrow> string option \<Rightarrow>
     (world list \<times> bool) option" where
  "safe_move env dry_run now w src dest_folder new_name =
     (if src \<notin> files w then Some ([w], False)
      else
        let dest_name = (case new_name of
                           None \<Rightarrow> name src
                         | Some n \<Rightarrow> if n \<noteq> [] then n else name src)
        in case get_safe_dest (files w) \<lparr>parent = dest_folder, name = dest_name\<rparr> of
             None \<Rightarrow> None
           | Some final_dest \<Rightarrow>
               Some
                 (if dry_run then ([w], True)
                  else if \<not> mkdir_ok env then ([w], False)
                  else
                    let w1 = w\<lparr>dirs := insert dest_folder (dirs w)\<rparr> in
                    case shutil_move (move_result env) (files w1) src final_dest of
                      (fs', moved) \<Rightarrow>
                        let w2 = w1\<lparr>files := fs'\<rparr> in
                        if \<not> moved then ([w, w1, w2], False)
                        else
                          let w3 = w2\<lparr>recently_moved := (final_dest, now) # recently_moved w2\<rparr>;
                              w4 = w3\<lparr>transactions := transactions w3 @
                                     [\<lparr>tx_action = ''move'', tx_src = src, tx_dest = final_dest,
                                       tx_timestamp = now\<rparr>]\<rparr>
                          in ([w, w1, w2, w3, w4, save_transactions env w4], True)))"

definition undo_last :: "os_outcome \<Rightarrow> world \<Rightarrow> world \<times> bool" where
  "undo_last env w =
     (if transactions w = [] then (w, False)
      else
        let last_tx = last (transactions w);
            w1 = w\<lparr>transactions := butlast (transactions w)\<rparr>
        in if tx_action last_tx = ''move'' then
             if tx_dest last_tx \<in> files w1 \<and> tx_src last_tx \<notin> files w1 then
               (case shutil_move (move_result env) (files w1) (tx_dest last_tx) (tx_src last_tx) of
                  (fs', moved) \<Rightarrow>
                    if moved then (save_transactions env (w1\<lparr>files := fs'\<rparr>), True)
                    else (w1\<lparr>files := fs'\<rparr>, False))
             else (w1, False)
           else (w1, False))"

text \<open>The worlds a call passed through; none when it never returns.\<close>

fun run_of :: "(world list \<times> 'a) option \<Rightarrow> world list" where
  "run_of None = []"
| "run_of (Some (run, r)) = run"

definition all_ok :: os_outcome where
  "all_ok = \<lparr>mkdir_ok = True, move_result = Moved, notify_ok = True, save_ok = True\<rparr>"

definition inbox_pdf :: pure_path where
  "inbox_pdf = \<lparr>parent = ''/home/u/Downloads'', name = ''report.pdf''\<rparr>"

definition start_world :: world where
  "start_world = \<lparr>files = {inbox_pdf}, dirs = {''/home/u/Downloads''}, db = [], transactions = [],
     transaction_log_file = None, recently_moved = []\<rparr>"

text \<open>
  The database holds a pending record of the move with this id; the statuses of the rows with
  this id.
\<close>

definition has_pending :: "world \<Rightarrow> string \<Rightarrow> pure_path \<Rightarrow> pure_path \<Rightarrow> bool" where
  "has_pending w i src final_dest \<longleftrightarrow>
     list_ex (\<lambda>t. tx_id t = i \<and> src_path t = src \<and> dest_path t = final_dest \<and>
                  status t = ''pending'') (db w)"

definition status_of :: "world \<Rightarrow> string \<Rightarrow> string list" where
  "status_of w i = map status (filter (\<lambda>t. tx_id t = i) (db w))"

text \<open>
  Every step of a run that changes the files or the directories starts in a world where \<open>P\<close>
  holds.
\<close>

fun guarded :: "(world \<Rightarrow> bool) \<Rightarrow> world list \<Rightarrow> bool" where
  "guarded P (a # b # rest) =
     ((files b \<noteq> files a \<or> dirs b \<noteq> dirs a \<longrightarrow> P a) \<and> guarded P (b # rest))"
| "guarded P [a] = True"
| "guarded P [] = True"

text \<open>Nothing has been recorded since \<open>w\<close>: list, log file and database are those of \<open>w\<close>.\<close>

definition nothing_recorded :: "world \<Rightarrow> world \<Rightarrow> bool" where
  "nothing_recorded w v \<longleftrightarrow>
     transactions v = transactions w \<and> transaction_log_file v = transaction_log_file w \<and>
     db v = db w"

text \<open>
  The world after \<open>report.pdf\<close> was moved from Downloads to Documents, and the same world after
  the moved file has been deleted by someone else.
\<close>

definition moved_entry :: log_entry where
  "moved_entry = \<lparr>tx_action = ''move'', tx_src = inbox_pdf, tx_dest = report_pdf, tx_timestamp = 0\<rparr>"

definition moved_world :: world where
  "moved_world = \<lparr>files = {report_pdf}, dirs = {''/home/u/Downloads'', ''/home/u/Documents''},
     db = [], transactions = [moved_entry], transaction_log_file = Some [moved_entry],
     recently_moved = [(report_pdf, 0)]\<rparr>"

definition stale_world :: world where
  "stale_world = moved_world\<lparr>files := {}\<rparr>"

section \<open>Properties of the voting engine\<close>

lemma map_of_add_score:
  "map_of (add_score sb c s) =
     (map_of sb)(c \<mapsto> (case map_of sb c of None \<Rightarrow> s | Some v \<Rightarrow> v + s))"
  by (induction sb c s rule: add_score.induct) (auto simp: fun_eq_iff)

lemma keys_add_score: "fst ` set (add_score sb c s) = insert c (fst ` set sb)"
  by (induction sb c s rule: add_score.induct) auto

lemma distinct_add_score:
  "distinct (map fst sb) \<Longrightarrow> distinct (map fst (add_score sb c s))"
  by (induction sb c s rule: add_score.induct) (auto simp: keys_add_score)

lemma distinct_tally:
  "distinct (map fst sb) \<Longrightarrow> distinct (map fst (tally sb vs))"
  by (induction sb vs rule: tally.induct) (auto simp: distinct_add_score)

lemma keys_tally: "fst ` set (tally sb vs) = fst ` set sb \<union> vote_categories vs"
  by (induction sb vs rule: tally.induct) (auto simp: keys_add_score vote_categories_def)

lemma category_score_Nil [simp]: "category_score [] c = 0"
  by (simp add: category_score_def)

lemma category_score_Cons [simp]:
  "category_score ((v, c', x) # vs) c =
     (if c' = c then weight v * x + category_score vs c else category_score vs c)"
  by (simp add: category_score_def)

lemma category_score_absent:
  "c \<notin> vote_categories vs \<Longrightarrow> category_score vs c = 0"
  by (induction vs) (auto simp: vote_categories_def)

lemma map_of_tally:
  "map_of (tally sb vs) c =
     (if c \<in> vote_categories vs
      then Some ((case map_of sb c of None \<Rightarrow> 0 | Some v \<Rightarrow> v) + category_score vs c)
      else map_of sb c)"
proof (induction sb vs rule: tally.induct)
  case (1 scoreboard)
  then show ?case by (simp add: vote_categories_def)
next
  case (2 scoreboard voter category confidence votes)
  then show ?case
    using category_score_absent [of c votes]
    by (auto simp: map_of_add_score vote_categories_def split: option.splits)
qed

lemma max_from_mem: "max_from best rest \<in> insert best (set rest)"
  by (induction best rest rule: max_from.induct) auto

lemma max_from_ge_best: "snd best \<le> snd (max_from best rest)"
proof (induction best rest rule: max_from.induct)
  case (2 best kv rest)
  then show ?case by (auto split: if_splits)
qed simp

lemma max_from_ge: "kv \<in> set rest \<Longrightarrow> snd kv \<le> snd (max_from best rest)"
proof (induction best rest rule: max_from.induct)
  case (2 best kv' rest)
  show ?case
  proof (cases "kv = kv'")
    case True
    have "snd kv' \<le> snd (if snd kv' > snd best then kv' else best)" by simp
    also have "\<dots> \<le> snd (max_from (if snd kv' > snd best then kv' else best) rest)"
      by (rule max_from_ge_best)
    finally show ?thesis using True by simp
  next
    case False
    with 2 show ?thesis by simp
  qed
qed simp

lemma dict_max_Some:
  assumes "dict_max sb = Some (k, v)"
  shows "(k, v) \<in> set sb" and "\<forall>(k', v') \<in> set sb. v' \<le> v"
proof -
  from assms obtain kv rest where sb: "sb = kv # rest" and m: "max_from kv rest = (k, v)"
    by (cases sb) auto
  from max_from_mem [of kv rest] m sb show "(k, v) \<in> set sb" by simp
  show "\<forall>(k', v') \<in> set sb. v' \<le> v"
  proof (clarify)
    fix k' v' assume "(k', v') \<in> set sb"
    then consider "(k', v') = kv" | "(k', v') \<in> set rest" using sb by auto
    then show "v' \<le> v"
    proof cases
      case 1
      with max_from_ge_best [of kv rest] m show ?thesis by (metis snd_conv)
    next
      case 2
      with max_from_ge [of "(k', v')" rest kv] m show ?thesis by simp
    qed
  qed
qed

lemma dict_max_None: "dict_max sb = None \<longleftrightarrow> sb = []"
  by (cases sb) auto

lemma arbitrate_nonempty:
  assumes "vs \<noteq> []"
  shows "\<exists>k v. arbitrate vs = (k, min v 1, tally [] vs) \<and> (k, v) \<in> set (tally [] vs) \<and>
           (\<forall>(k', v') \<in> set (tally [] vs). v' \<le> v)"
proof -
  have "vote_categories vs \<noteq> {}" using assms by (simp add: vote_categories_def)
  then have "tally [] vs \<noteq> []" using keys_tally [of "[]" vs] by auto
  then obtain k v where dm: "dict_max (tally [] vs) = Some (k, v)"
    by (cases "dict_max (tally [] vs)") (auto simp: dict_max_None)
  from dict_max_Some [OF dm] assms dm show ?thesis
    by (auto simp: arbitrate_def)
qed

text \<open>
  Claim C1. For any list of votes, the scoreboard of \<open>_arbitrate\<close> has exactly the voted
  categories as keys, each with the sum of weight times confidence over the votes for it; on
  a non-empty list the winner is a category of maximal score and the confidence is that score
  capped at 1; on the empty list the answer is \<open>("Unknown", 0.0, {})\<close>.
\<close>

theorem arbitrate_scoreboard:
  "case arbitrate vs of (winner, conf, sb) \<Rightarrow>
     (vs = [] \<longrightarrow> winner = ''Unknown'' \<and> conf = 0 \<and> sb = []) \<and>
     distinct (map fst sb) \<and>
     (\<forall>c. map_of sb c =
        (if c \<in> vote_categories vs then Some (category_score vs c) else None)) \<and>
     (vs \<noteq> [] \<longrightarrow>
        winner \<in> vote_categories vs \<and>
        (\<forall>c \<in> vote_categories vs. category_score vs c \<le> category_score vs winner) \<and>
        conf = min (category_score vs winner) 1)"
proof (cases "vs = []")
  case True
  then show ?thesis by (simp add: arbitrate_def vote_categories_def)
next
  case False
  define sb where "sb = tally [] vs"
  have d: "distinct (map fst sb)" unfolding sb_def by (rule distinct_tally) simp
  have m: "map_of sb c = (if c \<in> vote_categories vs then Some (category_score vs c) else None)" for c
    unfolding sb_def by (simp add: map_of_tally)
  from arbitrate_nonempty [OF False] obtain k v where
    a: "arbitrate vs = (k, min v 1, sb)" and mem: "(k, v) \<in> set sb"
    and ge: "\<forall>(k', v') \<in> set sb. v' \<le> v"
    unfolding sb_def by blast
  from mem d have kv: "map_of sb k = Some v" by simp
  with m [of k] have kin: "k \<in> vote_categories vs" and v: "v = category_score vs k"
    by (auto split: if_splits)
  have best: "category_score vs c \<le> category_score vs k" if "c \<in> vote_categories vs" for c
  proof -
    from that m [of c] have "map_of sb c = Some (category_score vs c)" by simp
    then have "(c, category_score vs c) \<in> set sb" by (rule map_of_SomeD)
    with ge v show ?thesis by auto
  qed
  from a False d m kin best v show ?thesis by simp
qed

theorem arbitrate_scoreboard_witness:
  "(case arbitrate [(FileTypeVoter, ''Documents'', 5 / 10), (SemanticVoter, ''Finance'', 9 / 10),
                    (HistoryVoter, ''Documents'', 8 / 10)] of
      (winner, conf, sb) \<Rightarrow>
        winner = ''Documents'' \<and> conf = 79 / 100 \<and>
        sb = [(''Documents'', 79 / 100), (''Finance'', 54 / 100)])
   \<and> arbitrate [(HistoryVoter, ''Code'', 9 / 10), (NLIVoter, ''Code'', 85 / 100)]
       = (''Code'', 1, [(''Code'', 1485 / 1000)])"
  using arbitrate_scoreboard [of "[(FileTypeVoter, ''Documents'', 5 / 10), (SemanticVoter, ''Finance'', 9 / 10),
                    (HistoryVoter, ''Documents'', 8 / 10)]"]
  by (simp add: arbitrate_def)

lemma collect_votes_known: "(v, c, x) \<in> set (collect_votes fast vs) \<Longrightarrow> c \<noteq> ''Unknown''"
  by (induction vs) (auto split: voter_outcome.splits if_splits)

lemma collect_votes_Nil:
  "collect_votes fast vs = [] \<longleftrightarrow> (\<forall>v \<in> set vs. \<not> produced fast v)"
  by (induction vs) (auto simp: produced_def split: voter_outcome.splits)

lemma arbitrate_winner_known:
  assumes "vs \<noteq> []" and "''Unknown'' \<notin> vote_categories vs"
  shows "fst (arbitrate vs) \<noteq> ''Unknown''"
proof -
  from arbitrate_nonempty [OF assms(1)] obtain k v where
    a: "arbitrate vs = (k, min v 1, tally [] vs)" and mem: "(k, v) \<in> set (tally [] vs)"
    by blast
  from mem have "k \<in> fst ` set (tally [] vs)" by force
  then have "k \<in> vote_categories vs" by (simp add: keys_tally)
  with assms(2) a show ?thesis by auto
qed

lemma arbitrate_Nil: "arbitrate [] = (''Unknown'', 0, [])"
  by (simp add: arbitrate_def)

lemma nli_vote_Unknown: "fst (nli_vote reason text) = ''Unknown'' \<Longrightarrow> nli_vote reason text = (''Unknown'', 0)"
  by (auto simp: nli_vote_def Let_def split: if_splits)

lemma process_file_votes_known:
  "''Unknown'' \<notin> vote_categories (votes (process_file fast reason text))"
proof -
  have a: "''Unknown'' \<notin> vote_categories (collect_votes fast voters)"
    using collect_votes_known by (fastforce simp: vote_categories_def)
  show ?thesis
    using a by (auto simp: process_file_def finish_def Let_def vote_categories_def split: prod.splits)
qed

lemma process_file_arbitrated:
  "(category (process_file fast reason text), confidence (process_file fast reason text))
     = (case arbitrate (votes (process_file fast reason text)) of (w, c, sm) \<Rightarrow> (w, c))"
  by (auto simp: process_file_def finish_def Let_def split: prod.splits)

lemma process_file_votes_Nil:
  "votes (process_file fast reason text) = [] \<longleftrightarrow>
     (\<forall>v \<in> set voters. \<not> produced fast v) \<and> fst (nli_vote reason text) = ''Unknown''"
proof (cases "collect_votes fast voters = []")
  case True
  then have "votes (process_file fast reason text) = [] \<longleftrightarrow> fst (nli_vote reason text) = ''Unknown''"
    by (auto simp: process_file_def finish_def Let_def arbitrate_Nil nli_vote_def split: prod.splits)
  with True show ?thesis by (simp add: collect_votes_Nil)
next
  case False
  then have "votes (process_file fast reason text) \<noteq> []"
    by (auto simp: process_file_def finish_def Let_def split: prod.splits)
  with False show ?thesis by (simp add: collect_votes_Nil)
qed

text \<open>
  Claim C10. \<open>process_file\<close> answers \<open>"Unknown"\<close> exactly when no fast voter produced a vote
  other than \<open>"Unknown"\<close> and the NLI voter has none either; then the confidence is 0 and the
  vote list is empty. Only votes other than \<open>"Unknown"\<close> are kept, and a non-empty vote list
  gives a winner other than \<open>"Unknown"\<close>.
\<close>

theorem process_file_unknown_iff_no_vote:
  "(category (process_file fast reason text) = ''Unknown'' \<longleftrightarrow>
      (\<forall>v \<in> set voters. \<not> produced fast v) \<and> fst (nli_vote reason text) = ''Unknown'') \<and>
   (category (process_file fast reason text) = ''Unknown'' \<longrightarrow>
      confidence (process_file fast reason text) = 0 \<and> votes (process_file fast reason text) = []) \<and>
   (votes (process_file fast reason text) \<noteq> [] \<longrightarrow>
      category (process_file fast reason text) \<noteq> ''Unknown'') \<and>
   (\<forall>(v, c, x) \<in> set (votes (process_file fast reason text)). c \<noteq> ''Unknown'')"
proof -
  let ?r = "process_file fast reason text"
  have known: "''Unknown'' \<notin> vote_categories (votes ?r)" by (rule process_file_votes_known)
  have arb: "(category ?r, confidence ?r) = (case arbitrate (votes ?r) of (w, c, sm) \<Rightarrow> (w, c))"
    by (rule process_file_arbitrated)
  have h_ne: "category ?r \<noteq> ''Unknown''" if "votes ?r \<noteq> []"
    using arbitrate_winner_known [OF that known] arb by (auto split: prod.splits)
  have h_e: "category ?r = ''Unknown'' \<and> confidence ?r = 0" if "votes ?r = []"
    using arb that by (simp add: arbitrate_Nil)
  have h_iff: "category ?r = ''Unknown'' \<longleftrightarrow> votes ?r = []" using h_ne h_e by blast
  have h_all: "\<forall>(v, c, x) \<in> set (votes ?r). c \<noteq> ''Unknown''"
    using known by (force simp: vote_categories_def)
  show ?thesis using h_iff h_e h_ne h_all process_file_votes_Nil [of fast reason "text"] by blast
qed

theorem process_file_unknown_iff_no_vote_witness:
  "category (process_file fast_ex1 (\<lambda>t. ''Unknown'') ''some text'') = ''Unknown'' \<and>
   confidence (process_file fast_ex1 (\<lambda>t. ''Unknown'') ''some text'') = 0 \<and>
   votes (process_file fast_ex1 (\<lambda>t. ''Unknown'') ''some text'') = [] \<and>
   category (process_file fast_ex1 (\<lambda>t. ''Finance'') ''some text'') = ''Finance'' \<and>
   votes (process_file fast_ex1 (\<lambda>t. ''Finance'') ''some text'') \<noteq> []"
  using process_file_unknown_iff_no_vote [of fast_ex1 "\<lambda>t. ''Unknown''" "''some text''"]
    process_file_unknown_iff_no_vote [of fast_ex1 "\<lambda>t. ''Finance''" "''some text''"]
  by (simp add: process_file_def finish_def voters_def fast_ex1_def arbitrate_def nli_vote_def NLI_THRESHOLD_def)

text \<open>
  Claim C2. The NLI voter is called once if the first-round winner is \<open>"Unknown"\<close> or the
  first-round confidence is strictly below 0.60, and the text is not empty; otherwise it is not
  called. When it is called and votes for a category, that one vote is appended, the result is
  the arbitration of the extended list and the method is \<open>voting_ensemble_with_nli\<close>; in every
  other case the first-round result stands with method \<open>voting_ensemble\<close>.
\<close>

theorem process_file_escalation:
  "case arbitrate (collect_votes fast voters) of (winner, conf, sm) \<Rightarrow>
     let r = process_file fast reason text;
         escalate = ((winner = ''Unknown'' \<or> conf < 60 / 100) \<and> text \<noteq> []);
         nli = nli_vote reason text
     in nli_calls r = (if escalate then 1 else 0) \<and>
        (escalate \<and> fst nli \<noteq> ''Unknown'' \<longrightarrow>
           votes r = collect_votes fast voters @ [(NLIVoter, nli)] \<and>
           category r = fst (arbitrate (votes r)) \<and>
           confidence r = fst (snd (arbitrate (votes r))) \<and>
           method_tag r = ''voting_ensemble_with_nli'') \<and>
        (\<not> (escalate \<and> fst nli \<noteq> ''Unknown'') \<longrightarrow>
           votes r = collect_votes fast voters \<and> category r = winner \<and> confidence r = conf \<and>
           method_tag r = ''voting_ensemble'')"
  by (auto simp: process_file_def finish_def Let_def NLI_THRESHOLD_def split: prod.splits)

theorem process_file_escalation_witness:
  "arbitrate (collect_votes (fast_semantic 1) voters) = (''Finance'', 60 / 100, [(''Finance'', 60 / 100)]) \<and>
   nli_calls (process_file (fast_semantic 1) (\<lambda>t. ''Code'') ''invoice'') = 0 \<and>
   method_tag (process_file (fast_semantic 1) (\<lambda>t. ''Code'') ''invoice'') = ''voting_ensemble'' \<and>
   arbitrate (collect_votes (fast_semantic (99 / 100)) voters)
     = (''Finance'', 594 / 1000, [(''Finance'', 594 / 1000)]) \<and>
   nli_calls (process_file (fast_semantic (99 / 100)) (\<lambda>t. ''Code'') ''invoice'') = 1 \<and>
   votes (process_file (fast_semantic (99 / 100)) (\<lambda>t. ''Code'') ''invoice'')
     = [(SemanticVoter, ''Finance'', 99 / 100), (NLIVoter, ''Code'', 85 / 100)] \<and>
   category (process_file (fast_semantic (99 / 100)) (\<lambda>t. ''Code'') ''invoice'') = ''Code'' \<and>
   method_tag (process_file (fast_semantic (99 / 100)) (\<lambda>t. ''Code'') ''invoice'') = ''voting_ensemble_with_nli'' \<and>
   nli_calls (process_file (fast_semantic (99 / 100)) (\<lambda>t. ''Code'') []) = 0"
  using process_file_escalation [of "fast_semantic 1" "\<lambda>t. ''Code''" "''invoice''"]
    process_file_escalation [of "fast_semantic (99 / 100)" "\<lambda>t. ''Code''" "''invoice''"]
    process_file_escalation [of "fast_semantic (99 / 100)" "\<lambda>t. ''Code''" "[]"]
  by (simp add: process_file_def finish_def voters_def fast_semantic_def arbitrate_def nli_vote_def
      NLI_THRESHOLD_def)

text \<open>
  Claim C9. \<open>SessionVoter.vote\<close> answers \<open>("Unknown", 0.0)\<close> unless some category of the session
  distribution has a share strictly above 0.5; when it votes, it names a category of maximal
  share with confidence \<open>min(share, 0.9)\<close>, so its confidence never exceeds 0.9.
\<close>

theorem session_vote_majority:
  "(\<not> (\<exists>(c, s) \<in> set ctx. s > 1 / 2) \<longrightarrow> session_vote ctx = (''Unknown'', 0)) \<and>
   ((\<exists>(c, s) \<in> set ctx. s > 1 / 2) \<longrightarrow>
      (\<exists>c share. (c, share) \<in> set ctx \<and> (\<forall>(c', s') \<in> set ctx. s' \<le> share) \<and>
         session_vote ctx = (c, min share (9 / 10)))) \<and>
   snd (session_vote ctx) \<le> 9 / 10"
proof (cases "dict_max ctx")
  case None
  then have "ctx = []" by (simp add: dict_max_None)
  then show ?thesis by (simp add: session_vote_def)
next
  case (Some kv)
  obtain k v where kv: "kv = (k, v)" by (cases kv)
  with Some have dm: "dict_max ctx = Some (k, v)" by simp
  from dict_max_Some [OF dm] have mem: "(k, v) \<in> set ctx"
    and ge: "\<forall>(k', v') \<in> set ctx. v' \<le> v" by auto
  show ?thesis
  proof (cases "v > 1 / 2")
    case True
    then have sv: "session_vote ctx = (k, min v (9 / 10))"
      using dm by (simp add: session_vote_def)
    have "\<exists>(c, s) \<in> set ctx. s > 1 / 2" using mem True by blast
    moreover have "\<exists>c share. (c, share) \<in> set ctx \<and> (\<forall>(c', s') \<in> set ctx. s' \<le> share) \<and>
         session_vote ctx = (c, min share (9 / 10))"
      using mem ge sv by blast
    ultimately show ?thesis using sv by simp
  next
    case False
    then have sv: "session_vote ctx = (''Unknown'', 0)"
      using dm by (simp add: session_vote_def)
    have "\<not> (\<exists>(c, s) \<in> set ctx. s > 1 / 2)" using ge False by fastforce
    then show ?thesis using sv by simp
  qed
qed

theorem session_vote_majority_witness:
  "session_vote [(''Documents'', 8 / 10), (''Images'', 2 / 10)] = (''Documents'', 8 / 10) \<and>
   session_vote [(''Documents'', 1)] = (''Documents'', 9 / 10) \<and>
   session_vote [(''Documents'', 1 / 2), (''Images'', 1 / 2)] = (''Unknown'', 0)"
  using session_vote_majority [of "[(''Documents'', 8 / 10), (''Images'', 2 / 10)]"]
    session_vote_majority [of "[(''Documents'', 1)]"]
    session_vote_majority [of "[(''Documents'', 1 / 2), (''Images'', 1 / 2)]"]
  by (simp add: session_vote_def)

section \<open>Properties of the folder clusters\<close>

lemma broadcast_same:
  "length a = length b \<Longrightarrow> broadcast f a b = Inr (map2 f a b)"
  by (simp add: broadcast_def)

lemma update_centroid_step:
  assumes c: "centroid self = Some old" and n: "n_files self = int k" and k: "0 < k"
    and lo: "length old = d" and le: "length e = d"
  shows "update_centroid self e =
           Inr (self\<lparr>n_files := int (Suc k),
                     centroid := Some (map (\<lambda>i. old ! i + (e ! i - old ! i) / real (Suc k)) [0..<d])\<rparr>)"
proof -
  have eq: "map2 (+) old (map (\<lambda>x. x / real (Suc k)) (map2 (-) e old))
            = map (\<lambda>i. old ! i + (e ! i - old ! i) / real (Suc k)) [0..<d]"
    using lo le by (intro nth_equalityI) simp_all
  have n': "n_files self + 1 = int (Suc k)" using n by simp
  have r: "real_of_int (int (Suc k)) = real (Suc k)" by simp
  show ?thesis
    unfolding update_centroid_def c option.case Let_def
    using lo le eq by (simp add: broadcast_same n' del: of_nat_Suc)
qed

lemma running_mean_step:
  assumes "0 < k"
  shows "s / real k + (x - s / real k) / real (Suc k) = (s + x) / real (Suc k)"
proof -
  define a where "a = real k"
  have a: "0 < a" using assms by (simp add: a_def)
  have "s / a + (x - s / a) / (a + 1) = (s + x) / (a + 1)"
  proof -
    have "(s / a + (x - s / a) / (a + 1)) * (a + 1) = s / a * (a + 1) + (x - s / a)"
      using a by (simp add: distrib_right)
    also have "\<dots> = s / a * a + x" by (simp add: distrib_left)
    also have "\<dots> = s + x" using a by simp
    finally have "(s / a + (x - s / a) / (a + 1)) * (a + 1) = s + x" .
    then show ?thesis using a by (simp add: eq_divide_eq)
  qed
  then show ?thesis by (simp add: a_def add.commute)
qed

lemma mean_snoc:
  assumes "pre \<noteq> []"
  shows "map (\<lambda>i. mean_embedding d pre ! i + (e ! i - mean_embedding d pre ! i) / real (Suc (length pre))) [0..<d]
         = mean_embedding d (pre @ [e])"
proof (intro nth_equalityI)
  show "length (map (\<lambda>i. mean_embedding d pre ! i + (e ! i - mean_embedding d pre ! i) / real (Suc (length pre))) [0..<d])
        = length (mean_embedding d (pre @ [e]))"
    by (simp add: mean_embedding_def)
next
  fix i assume "i < length (map (\<lambda>i. mean_embedding d pre ! i + (e ! i - mean_embedding d pre ! i) / real (Suc (length pre))) [0..<d])"
  then have i: "i < d" by simp
  have k: "0 < length pre" using assms by simp
  show "map (\<lambda>i. mean_embedding d pre ! i + (e ! i - mean_embedding d pre ! i) / real (Suc (length pre))) [0..<d] ! i
        = mean_embedding d (pre @ [e]) ! i"
    using i running_mean_step [OF k, of "\<Sum>e\<leftarrow>pre. e ! i" "e ! i"]
    by (simp add: mean_embedding_def del: of_nat_Suc)
qed

lemma update_all_mean:
  assumes "centroid self = Some (mean_embedding d pre)" and "n_files self = int (length pre)"
    and "pre \<noteq> []" and "\<forall>e \<in> set es. length e = d"
  shows "\<exists>self'. update_all self es = Inr self' \<and>
           centroid self' = Some (mean_embedding d (pre @ es)) \<and>
           n_files self' = int (length (pre @ es)) \<and>
           name_embedding self' = name_embedding self"
  using assms
proof (induction es arbitrary: self pre)
  case Nil
  then show ?case by simp
next
  case (Cons e es)
  let ?s = "self\<lparr>n_files := int (Suc (length pre)),
                  centroid := Some (mean_embedding d (pre @ [e]))\<rparr>"
  have lm: "length (mean_embedding d pre) = d" by (simp add: mean_embedding_def)
  have step: "update_centroid self e = Inr ?s"
    using update_centroid_step [OF Cons.prems(1) Cons.prems(2) _ lm, of e] Cons.prems(3,4)
    by (simp add: mean_snoc del: of_nat_Suc)
  have "\<exists>self'. update_all ?s es = Inr self' \<and>
           centroid self' = Some (mean_embedding d ((pre @ [e]) @ es)) \<and>
           n_files self' = int (length ((pre @ [e]) @ es)) \<and>
           name_embedding self' = name_embedding ?s"
    by (rule Cons.IH) (use Cons.prems in simp_all)
  then show ?case using step by simp
qed

lemma mean_first: "length e = d \<Longrightarrow> mean_embedding d [e] = e"
  by (auto simp: mean_embedding_def intro: nth_equalityI)

lemma update_all_fresh:
  assumes "centroid self = None" and "\<forall>e \<in> set es. length e = d" and "es \<noteq> []"
  shows "\<exists>self'. update_all self es = Inr self' \<and>
           centroid self' = Some (mean_embedding d es) \<and>
           n_files self' = int (length es) \<and>
           name_embedding self' = name_embedding self"
proof -
  from assms(3) obtain e rest where es: "es = e # rest" by (cases es) auto
  let ?s = "self\<lparr>centroid := Some e, n_files := 1\<rparr>"
  have first: "update_centroid self e = Inr ?s"
    using assms(1) by (simp add: update_centroid_def)
  have "\<exists>self'. update_all ?s rest = Inr self' \<and>
           centroid self' = Some (mean_embedding d ([e] @ rest)) \<and>
           n_files self' = int (length ([e] @ rest)) \<and>
           name_embedding self' = name_embedding ?s"
    by (rule update_all_mean) (use assms(2) es in \<open>simp_all add: mean_first\<close>)
  then show ?thesis using first es by simp
qed

lemma mean_embedding_mset:
  assumes "mset es' = mset es"
  shows "mean_embedding d es' = mean_embedding d es"
proof -
  have "length es' = length es" using assms by (metis size_mset)
  moreover have "(\<Sum>e\<leftarrow>es'. e ! i) = (\<Sum>e\<leftarrow>es. e ! i)" for i
  proof -
    have "(\<Sum>e\<leftarrow>es'. e ! i) = sum_mset (image_mset (\<lambda>e. e ! i) (mset es'))"
      by (metis mset_map sum_mset_sum_list)
    also have "\<dots> = sum_mset (image_mset (\<lambda>e. e ! i) (mset es))" using assms by simp
    also have "\<dots> = (\<Sum>e\<leftarrow>es. e ! i)" by (metis mset_map sum_mset_sum_list)
    finally show ?thesis .
  qed
  ultimately show ?thesis by (simp add: mean_embedding_def)
qed

lemma update_centroid_Inr:
  assumes "update_centroid self e = Inr self'"
  shows "centroid self' \<noteq> None \<and> name_embedding self' = name_embedding self \<and>
         n_files self' = (if centroid self = None then 1 else n_files self + 1)"
  using assms
  by (auto simp: update_centroid_def Let_def split: option.splits sum.splits if_splits)

lemma update_all_Inr_counted:
  assumes "update_all self es = Inr self'" and "centroid self \<noteq> None"
  shows "centroid self' \<noteq> None \<and> name_embedding self' = name_embedding self \<and>
         n_files self' = n_files self + int (length es)"
  using assms
proof (induction es arbitrary: self)
  case Nil
  then show ?case by simp
next
  case (Cons e es)
  from Cons.prems(1) obtain mid where mid: "update_centroid self e = Inr mid"
    and rest: "update_all mid es = Inr self'"
    by (auto split: sum.splits)
  from update_centroid_Inr [OF mid] Cons.prems(2)
  have m: "centroid mid \<noteq> None" "name_embedding mid = name_embedding self"
    "n_files mid = n_files self + 1" by auto
  from Cons.IH [OF rest m(1)] m show ?case by simp
qed

lemma update_all_Inr_fresh:
  assumes "update_all self es = Inr self'" and "centroid self = None"
  shows "name_embedding self' = name_embedding self \<and>
         (if es = [] then self' = self
          else centroid self' \<noteq> None \<and> n_files self' = int (length es))"
proof (cases es)
  case Nil
  with assms show ?thesis by simp
next
  case (Cons e rest)
  with assms(1) obtain mid where mid: "update_centroid self e = Inr mid"
    and r: "update_all mid rest = Inr self'"
    by (auto split: sum.splits)
  from update_centroid_Inr [OF mid] assms(2)
  have m: "centroid mid \<noteq> None" "name_embedding mid = name_embedding self" "n_files mid = 1"
    by auto
  from update_all_Inr_counted [OF r m(1)] m Cons show ?thesis by simp
qed

text \<open>
  Claim C3. A cluster starts with no centroid and a name embedding, and \<open>update_centroid\<close> is
  called once for each embedding of a list. Whenever the calls return, after fewer than 3 of
  them \<open>get_effective_embedding\<close> answers the name embedding and after 3 or more it answers the
  centroid. When all embeddings have the same length the calls do return, and from 3 calls on
  the answer is the mean of the embeddings.
\<close>

theorem effective_embedding_after_updates:
  assumes "centroid self = None" and "name_embedding self = Some ne"
  shows "(\<forall>self'. update_all self es = Inr self' \<longrightarrow>
            (length es < 3 \<longrightarrow> get_effective_embedding self' = Some ne) \<and>
            (3 \<le> length es \<longrightarrow> get_effective_embedding self' = centroid self' \<and> centroid self' \<noteq> None)) \<and>
         ((\<forall>e \<in> set es. length e = d) \<longrightarrow>
            (\<exists>self'. update_all self es = Inr self' \<and>
               (3 \<le> length es \<longrightarrow> get_effective_embedding self' = Some (mean_embedding d es))))"
proof (intro conjI allI impI)
  fix self' assume r: "update_all self es = Inr self'"
  note f = update_all_Inr_fresh [OF r assms(1)]
  { assume "length es < 3"
    then show "get_effective_embedding self' = Some ne"
      using f assms by (auto simp: get_effective_embedding_def MIN_FILES_FOR_CENTROID_def split: if_splits) }
  { assume "3 \<le> length es"
    then show "get_effective_embedding self' = centroid self'" and "centroid self' \<noteq> None"
      using f by (auto simp: get_effective_embedding_def MIN_FILES_FOR_CENTROID_def split: if_splits) }
next
  assume same: "\<forall>e \<in> set es. length e = d"
  show "\<exists>self'. update_all self es = Inr self' \<and>
               (3 \<le> length es \<longrightarrow> get_effective_embedding self' = Some (mean_embedding d es))"
  proof (cases "es = []")
    case True
    then show ?thesis by simp
  next
    case False
    from update_all_fresh [OF assms(1) same False] obtain self' where
      s: "update_all self es = Inr self'" "centroid self' = Some (mean_embedding d es)"
         "n_files self' = int (length es)" by blast
    then show ?thesis
      by (auto simp: get_effective_embedding_def MIN_FILES_FOR_CENTROID_def)
  qed
qed

theorem effective_embedding_after_updates_witness:
  "get_effective_embedding docs_cluster = Some [1, 0] \<and>
   (\<exists>c. update_all docs_cluster [[1, 2], [3, 4]] = Inr c \<and> centroid c = Some [2, 3] \<and>
        get_effective_embedding c = Some [1, 0]) \<and>
   (\<exists>c. update_all docs_cluster [[1, 2], [3, 4], [5, 9]] = Inr c \<and>
        get_effective_embedding c = Some [3, 5])"
  using effective_embedding_after_updates [of docs_cluster "[1, 0]" "[[1, 2], [3, 4]]" 2]
    effective_embedding_after_updates [of docs_cluster "[1, 0]" "[[1, 2], [3, 4], [5, 9]]" 2]
  by (simp add: docs_cluster_def update_centroid_def broadcast_def get_effective_embedding_def
      MIN_FILES_FOR_CENTROID_def)

text \<open>
  Claim C4. For a cluster with no prior centroid and a non-empty list of embeddings of one
  length, the calls of \<open>update_centroid\<close> return, the centroid is the arithmetic mean of the
  embeddings, \<open>n_files\<close> is their number, and every reordering of the list gives the same
  centroid and count.
\<close>

theorem centroid_is_mean:
  assumes "centroid self = None" and "\<forall>e \<in> set es. length e = d" and "es \<noteq> []"
  shows "\<exists>self'. update_all self es = Inr self' \<and>
           centroid self' = Some (mean_embedding d es) \<and> n_files self' = int (length es) \<and>
           (\<forall>es'. mset es' = mset es \<longrightarrow>
              (\<exists>self''. update_all self es' = Inr self'' \<and> centroid self'' = centroid self' \<and>
                 n_files self'' = n_files self'))"
proof -
  from update_all_fresh [OF assms] obtain self' where
    s: "update_all self es = Inr self'" "centroid self' = Some (mean_embedding d es)"
       "n_files self' = int (length es)" by blast
  have "\<exists>self''. update_all self es' = Inr self'' \<and> centroid self'' = centroid self' \<and>
                 n_files self'' = n_files self'" if p: "mset es' = mset es" for es'
  proof -
    have "set es' = set es" using p by (metis set_mset_mset)
    then have same: "\<forall>e \<in> set es'. length e = d" using assms(2) by simp
    have ne: "es' \<noteq> []" using p assms(3) by auto
    have len: "length es' = length es" using p by (metis size_mset)
    from update_all_fresh [OF assms(1) same ne] obtain self'' where
      "update_all self es' = Inr self''" "centroid self'' = Some (mean_embedding d es')"
      "n_files self'' = int (length es')" by blast
    then show ?thesis using s len mean_embedding_mset [OF p, of d] by simp
  qed
  with s show ?thesis by blast
qed

theorem centroid_is_mean_witness:
  "(\<exists>c. update_all docs_cluster [[1, 2], [3, 4], [5, 9]] = Inr c \<and> centroid c = Some [3, 5] \<and>
        n_files c = 3) \<and>
   (\<exists>c. update_all docs_cluster [[5, 9], [1, 2], [3, 4]] = Inr c \<and> centroid c = Some [3, 5] \<and>
        n_files c = 3)"
proof -
  have h1: "centroid docs_cluster = None" by (simp add: docs_cluster_def)
  have h2: "\<forall>e \<in> set [[1, 2], [3, 4], [5, 9 :: real]]. length e = 2" by simp
  have h3: "[[1, 2], [3, 4], [5, 9 :: real]] \<noteq> []" by simp
  have m: "mean_embedding 2 [[1, 2], [3, 4], [5, 9]] = [3, 5]"
    by (simp add: mean_embedding_def upt_rec numeral_2_eq_2)
  have p: "mset [[5, 9], [1, 2], [3, 4 :: real]] = mset [[1, 2], [3, 4], [5, 9]]"
    by (simp add: add_mset_commute)
  from centroid_is_mean [OF h1 h2 h3] obtain c where
    c: "update_all docs_cluster [[1, 2], [3, 4], [5, 9]] = Inr c"
       "centroid c = Some (mean_embedding 2 [[1, 2], [3, 4], [5, 9]])"
       "n_files c = int (length [[1, 2], [3, 4], [5, 9 :: real]])"
    and perm: "\<forall>es'. mset es' = mset [[1, 2], [3, 4], [5, 9]] \<longrightarrow>
       (\<exists>c'. update_all docs_cluster es' = Inr c' \<and> centroid c' = centroid c \<and>
          n_files c' = n_files c)"
    by blast
  from perm p obtain c' where
    c': "update_all docs_cluster [[5, 9], [1, 2], [3, 4]] = Inr c'" "centroid c' = centroid c"
        "n_files c' = n_files c"
    by blast
  have "update_all docs_cluster [[1, 2], [3, 4], [5, 9]] = Inr c \<and> centroid c = Some [3, 5] \<and>
        n_files c = 3"
    using c m by simp
  moreover have "update_all docs_cluster [[5, 9], [1, 2], [3, 4]] = Inr c' \<and>
        centroid c' = Some [3, 5] \<and> n_files c' = 3"
    using c c' m by simp
  ultimately show ?thesis by blast
qed

section \<open>Properties of the semantic memory\<close>

lemma rebuild_index_max_entries [simp]: "max_entries (rebuild_index self) = max_entries self"
  by (simp add: rebuild_index_def save_def Let_def split: option.splits)

lemma rebuild_index_data:
  "data (rebuild_index self) =
     take (max_entries self) (filter (\<lambda>d. valid_embedding (e_embedding d)) (data self))"
  by (simp add: rebuild_index_def save_def Let_def split: option.splits)

lemma learn_max_entries [simp]: "max_entries (learn self t c e) = max_entries self"
  by (simp add: learn_def save_def Let_def)

lemma learn_length:
  assumes "length (data self) \<le> max_entries self"
  shows "length (data (learn self t c e)) \<le> max_entries self"
proof (cases "list_ex (\<lambda>entry. e_text entry = t \<and> e_category entry = c) (data self)")
  case True
  then show ?thesis using assms by (simp add: learn_def)
next
  case False
  then obtain s1 where l: "learn self t c e = rebuild_index s1" and m: "max_entries s1 = max_entries self"
    by (simp add: learn_def Let_def save_def)
  have "length (data (rebuild_index s1)) \<le> max_entries s1"
    unfolding rebuild_index_data by simp
  then show ?thesis using l m by simp
qed

lemma learn_all_max_entries [simp]: "max_entries (learn_all self calls) = max_entries self"
  by (induction self calls rule: learn_all.induct) simp_all

lemma learn_all_length:
  assumes "length (data self) \<le> max_entries self"
  shows "length (data (learn_all self calls)) \<le> max_entries self"
  using assms
proof (induction self calls rule: learn_all.induct)
  case (2 self t c e calls)
  from learn_length [OF "2.prems"] have "length (data (learn self t c e)) \<le> max_entries (learn self t c e)"
    by simp
  from "2.IH" [OF this] show ?case by simp
qed simp

lemma learn_appends:
  assumes nodup: "\<not> list_ex (\<lambda>entry. e_text entry = t \<and> e_category entry = c) (data self)"
    and valid: "\<forall>entry \<in> set (data self). valid_embedding (e_embedding entry)"
    and new: "valid_embedding e"
    and cap: "length (data self) \<le> max_entries self" and pos: "0 < max_entries self"
  shows "data (learn self t c e) =
           (if length (data self) = max_entries self then drop 1 (data self) else data self) @
           [\<lparr>e_text = take (max_text_chars self) t, e_category = c, e_embedding = e\<rparr>]"
proof -
  let ?kept = "if length (data self) \<ge> max_entries self then drop 1 (data self) else data self"
  let ?new = "\<lparr>e_text = take (max_text_chars self) t, e_category = c, e_embedding = e\<rparr>"
  have v: "\<forall>entry \<in> set (?kept @ [?new]). valid_embedding (e_embedding entry)"
    using valid new by (auto dest: in_set_dropD)
  have len: "length (?kept @ [?new]) \<le> max_entries self" using cap pos by auto
  have "data (learn self t c e) =
          take (max_entries self) (filter (\<lambda>d. valid_embedding (e_embedding d)) (?kept @ [?new]))"
    using nodup by (simp add: learn_def Let_def rebuild_index_data save_def)
  also have "filter (\<lambda>d. valid_embedding (e_embedding d)) (?kept @ [?new]) = ?kept @ [?new]"
    using v by (simp only: filter_id_conv)
  also have "take (max_entries self) (?kept @ [?new]) = ?kept @ [?new]"
    using len by simp
  finally show ?thesis using cap by auto
qed

lemma learn_valid:
  assumes "\<forall>entry \<in> set (data self). valid_embedding (e_embedding entry)"
  shows "\<forall>entry \<in> set (data (learn self t c e)). valid_embedding (e_embedding entry)"
proof (cases "list_ex (\<lambda>entry. e_text entry = t \<and> e_category entry = c) (data self)")
  case True
  then show ?thesis using assms by (simp add: learn_def)
next
  case False
  then obtain s1 where l: "learn self t c e = rebuild_index s1"
    by (simp add: learn_def Let_def)
  show ?thesis unfolding l rebuild_index_data by (auto dest: in_set_takeD)
qed

lemma learn_all_valid:
  assumes "\<forall>entry \<in> set (data self). valid_embedding (e_embedding entry)"
  shows "\<forall>entry \<in> set (data (learn_all self calls)). valid_embedding (e_embedding entry)"
  using assms
proof (induction self calls rule: learn_all.induct)
  case (2 self t c e calls)
  from "2.IH" [OF learn_valid [OF "2.prems"]] show ?case by simp
qed simp

text \<open>
  Claim C8. From a store that holds at most \<open>max_entries\<close> entries, as it does after loading,
  the entry count never exceeds \<open>max_entries\<close> at any point of any sequence of \<open>learn\<close>
  calls, and valid entries stay valid. When the store is at capacity and \<open>learn\<close> appends
  (the pair of text and category is new, the embeddings are valid), the new store is the old
  one without its first, oldest entry, followed by the new entry.
\<close>

theorem memory_capacity_fifo:
  assumes "length (data self) \<le> max_entries self"
  shows "(\<forall>k \<le> length calls. length (data (learn_all self (take k calls))) \<le> max_entries self) \<and>
         ((\<forall>entry \<in> set (data self). valid_embedding (e_embedding entry)) \<longrightarrow>
            (\<forall>entry \<in> set (data (learn_all self calls)). valid_embedding (e_embedding entry))) \<and>
         (length (data self) = max_entries self \<and> 0 < max_entries self \<and>
          \<not> list_ex (\<lambda>entry. e_text entry = t \<and> e_category entry = c) (data self) \<and>
          (\<forall>entry \<in> set (data self). valid_embedding (e_embedding entry)) \<and> valid_embedding e \<longrightarrow>
            data (learn self t c e) =
              tl (data self) @
              [\<lparr>e_text = take (max_text_chars self) t, e_category = c, e_embedding = e\<rparr>])"
proof (intro conjI allI impI)
  fix k
  show "length (data (learn_all self (take k calls))) \<le> max_entries self"
    by (rule learn_all_length [OF assms])
next
  assume "\<forall>entry \<in> set (data self). valid_embedding (e_embedding entry)"
  then show "\<forall>entry \<in> set (data (learn_all self calls)). valid_embedding (e_embedding entry)"
    by (rule learn_all_valid)
next
  assume h: "length (data self) = max_entries self \<and> 0 < max_entries self \<and>
          \<not> list_ex (\<lambda>entry. e_text entry = t \<and> e_category entry = c) (data self) \<and>
          (\<forall>entry \<in> set (data self). valid_embedding (e_embedding entry)) \<and> valid_embedding e"
  then have "data (learn self t c e) =
           (if length (data self) = max_entries self then drop 1 (data self) else data self) @
           [\<lparr>e_text = take (max_text_chars self) t, e_category = c, e_embedding = e\<rparr>]"
    by (intro learn_appends) simp_all
  with h show "data (learn self t c e) =
              tl (data self) @
              [\<lparr>e_text = take (max_text_chars self) t, e_category = c, e_embedding = e\<rparr>]"
    by (simp add: drop_Suc)
qed

theorem memory_capacity_fifo_witness:
  "length (data full_memory) = 200 \<and> max_entries full_memory = 200 \<and>
   data (learn full_memory ''invoice 2024'' ''Finance'' (NumList [0, 1])) =
     tl (data full_memory) @
     [\<lparr>e_text = ''invoice 2024'', e_category = ''Finance'', e_embedding = NumList [0, 1]\<rparr>] \<and>
   length (data (learn full_memory ''invoice 2024'' ''Finance'' (NumList [0, 1]))) = 200 \<and>
   length (data (learn_all init_memory
     [(''a'', ''Code'', NumList [1]), (''a'', ''Code'', NumList [1]), (''b'', ''Code'', NumList [2])])) \<le> 200"
proof -
  have len: "length (data full_memory) = 200" "max_entries full_memory = 200"
    "max_text_chars full_memory = 160"
    by (simp_all add: full_memory_def init_memory_def)
  have cap: "length (data full_memory) \<le> max_entries full_memory" using len by simp
  have nodup: "\<not> list_ex (\<lambda>entry. e_text entry = ''invoice 2024'' \<and> e_category entry = ''Finance'')
                 (data full_memory)"
    by (simp add: full_memory_def list_ex_iff)
  have valid: "\<forall>entry \<in> set (data full_memory). valid_embedding (e_embedding entry)"
    by (simp add: full_memory_def)
  have ev: "data (learn full_memory ''invoice 2024'' ''Finance'' (NumList [0, 1])) =
     tl (data full_memory) @
     [\<lparr>e_text = ''invoice 2024'', e_category = ''Finance'', e_embedding = NumList [0, 1]\<rparr>]"
    using memory_capacity_fifo [OF cap, of "[]" "''invoice 2024''" "''Finance''" "NumList [0, 1]"]
      nodup valid len by simp
  have i: "length (data init_memory) \<le> max_entries init_memory" by (simp add: init_memory_def)
  have "length (data (learn_all init_memory
     [(''a'', ''Code'', NumList [1]), (''a'', ''Code'', NumList [1]), (''b'', ''Code'', NumList [2])])) \<le> 200"
    using memory_capacity_fifo [OF i, of "[(''a'', ''Code'', NumList [1]), (''a'', ''Code'', NumList [1]), (''b'', ''Code'', NumList [2])]"]
    by (auto simp: init_memory_def dest: spec [of _ 3])
  moreover have "length (data (learn full_memory ''invoice 2024'' ''Finance'' (NumList [0, 1]))) = 200"
    unfolding ev using len by simp
  ultimately show ?thesis using len ev by simp
qed

section \<open>Properties of collision resolution\<close>

lemma digit_val_char:
  assumes "d < 10"
  shows "digit_val (digit_char d) = d"
proof -
  from assms have "d \<in> {0, 1, 2, 3, 4, 5, 6, 7, 8, 9}" by auto
  then show ?thesis by (auto simp: digit_val_def digit_char_def)
qed

lemma str_val_str_nat: "str_val (str_nat n) = n"
proof (induction n rule: str_nat.induct)
  case (1 n)
  show ?case
  proof (cases "n < 10")
    case True
    then show ?thesis by (subst str_nat.simps) (simp add: str_val_def digit_val_char)
  next
    case False
    have "str_val (str_nat n) = 10 * str_val (str_nat (n div 10)) + digit_val (digit_char (n mod 10))"
      using False by (subst str_nat.simps) (simp add: str_val_def)
    also have "\<dots> = 10 * (n div 10) + n mod 10"
      using 1 False by (simp add: digit_val_char)
    finally show ?thesis by simp
  qed
qed

lemma inj_str_nat: "inj str_nat"
  by (rule inj_on_inverseI [of _ str_val]) (rule str_val_str_nat)

lemma inj_versioned: "inj (versioned dest)"
proof (rule injI)
  fix a b assume "versioned dest a = versioned dest b"
  then have "str_nat a = str_nat b" by (simp add: versioned_def)
  then show "a = b" using inj_str_nat by (simp add: inj_def)
qed

lemma free_version_exists:
  assumes "finite fs"
  shows "\<exists>k. first_free fs dest start k"
proof -
  have "\<exists>k\<ge>start. versioned dest k \<notin> fs"
  proof (rule ccontr)
    assume "\<not> (\<exists>k\<ge>start. versioned dest k \<notin> fs)"
    then have "versioned dest ` {start..} \<subseteq> fs" by auto
    then have "finite (versioned dest ` {start..})" using assms by (rule finite_subset)
    then have "finite {start..}"
      by (rule finite_imageD) (rule inj_on_subset [OF inj_versioned], simp)
    then show False by (simp add: infinite_Ici)
  qed
  then have ex: "\<exists>k. start \<le> k \<and> versioned dest k \<notin> fs" by blast
  define k where "k = (LEAST k. start \<le> k \<and> versioned dest k \<notin> fs)"
  have "start \<le> k \<and> versioned dest k \<notin> fs"
    unfolding k_def using ex by (rule LeastI_ex)
  moreover have "versioned dest j \<in> fs" if "start \<le> j" "j < k" for j
    using that not_less_Least [of j "\<lambda>k. start \<le> k \<and> versioned dest k \<notin> fs"]
    unfolding k_def by blast
  ultimately show ?thesis unfolding first_free_def by blast
qed

lemma first_free_unique: "first_free fs dest start k \<Longrightarrow> first_free fs dest start k' \<Longrightarrow> k = k'"
  unfolding first_free_def by (metis linorder_neqE_nat)

lemma loop_finds_first_free:
  assumes eq: "\<And>c. f c = (if versioned dest c \<notin> fs then Some (versioned dest c) else f (c + 1))"
    and ff: "first_free fs dest start k"
  shows "f start = Some (versioned dest k)"
  using ff
proof (induction "k - start" arbitrary: start)
  case 0
  then have "start = k" and "versioned dest k \<notin> fs" by (auto simp: first_free_def)
  then show ?case by (subst eq) simp
next
  case (Suc n)
  then have lt: "start < k" by simp
  with Suc.prems have taken: "versioned dest start \<in> fs" by (auto simp: first_free_def)
  have "first_free fs dest (start + 1) k"
    using Suc.prems lt by (auto simp: first_free_def)
  moreover have "n = k - (start + 1)" using Suc.hyps(2) by simp
  ultimately have "f (start + 1) = Some (versioned dest k)" by (rule Suc.hyps(1) [rotated])
  with taken show ?case by (subst eq) simp
qed

lemma get_safe_dest_loop_first_free:
  "first_free fs dest start k \<Longrightarrow> get_safe_dest_loop fs dest start = Some (versioned dest k)"
  by (rule loop_finds_first_free [where f = "get_safe_dest_loop fs dest"])
     (rule get_safe_dest_loop.simps)

lemma resolve_collision_loop_first_free:
  "first_free fs dest start k \<Longrightarrow> resolve_collision_loop fs dest start = Some (versioned dest k)"
  by (rule loop_finds_first_free [where f = "resolve_collision_loop fs dest"])
     (rule resolve_collision_loop.simps)

lemma str_nat_1: "str_nat (Suc 0) = ''1''" by (subst str_nat.simps) (simp add: digit_char_def)
lemma str_nat_2: "str_nat 2 = ''2''" by (subst str_nat.simps) (simp add: digit_char_def)
lemma str_nat_3: "str_nat 3 = ''3''" by (subst str_nat.simps) (simp add: digit_char_def)

lemma versioned_report:
  "versioned report_pdf 1 = report_pdf\<lparr>name := ''report_v1.pdf''\<rparr>"
  "versioned report_pdf (Suc 0) = report_pdf\<lparr>name := ''report_v1.pdf''\<rparr>"
  "versioned report_pdf 2 = report_pdf\<lparr>name := ''report_v2.pdf''\<rparr>"
  "versioned report_pdf 3 = report_pdf\<lparr>name := ''report_v3.pdf''\<rparr>"
  by (simp_all add: versioned_def report_pdf_def path_stem_def path_suffix_def str_nat_1 str_nat_2 str_nat_3)

text \<open>
  Claim C5, as amended. On a filesystem with finitely many paths both resolvers return, and
  never a path that exists. A destination that does not exist is returned unchanged. When it
  exists, \<open>Executor._get_safe_dest\<close> returns the first free name among \<open>stem_v2\<close>, \<open>stem_v3\<close>,
  ... and \<open>ExecutionService._resolve_collision\<close> the first free name among \<open>stem_v1\<close>,
  \<open>stem_v2\<close>, ..., each with the parent and the suffix of the destination.
\<close>

theorem collision_resolution_first_free:
  assumes "finite fs"
  shows "(dest \<notin> fs \<longrightarrow> get_safe_dest fs dest = Some dest \<and> resolve_collision fs dest = Some dest) \<and>
         (dest \<in> fs \<longrightarrow>
            (\<exists>k. first_free fs dest 2 k \<and> get_safe_dest fs dest = Some (versioned dest k)) \<and>
            (\<exists>k. first_free fs dest 1 k \<and> resolve_collision fs dest = Some (versioned dest k))) \<and>
         (\<exists>r. get_safe_dest fs dest = Some r \<and> r \<notin> fs) \<and>
         (\<exists>r. resolve_collision fs dest = Some r \<and> r \<notin> fs)"
proof -
  obtain k2 where k2: "first_free fs dest 2 k2" using free_version_exists [OF assms] by blast
  obtain k1 where k1: "first_free fs dest 1 k1" using free_version_exists [OF assms] by blast
  have g: "get_safe_dest fs dest = Some (versioned dest k2)" if "dest \<in> fs"
    using that get_safe_dest_loop_first_free [OF k2] by (simp add: get_safe_dest_def)
  have r: "resolve_collision fs dest = Some (versioned dest k1)" if "dest \<in> fs"
    using that resolve_collision_loop_first_free [OF k1] by (simp add: resolve_collision_def)
  have free: "versioned dest k2 \<notin> fs" "versioned dest k1 \<notin> fs"
    using k1 k2 by (simp_all add: first_free_def)
  show ?thesis
  proof (cases "dest \<in> fs")
    case True
    with g r k1 k2 free show ?thesis by auto
  next
    case False
    then show ?thesis by (simp add: get_safe_dest_def resolve_collision_def)
  qed
qed

lemma report_versions_differ:
  "report_pdf\<lparr>name := ''report_v1.pdf''\<rparr> \<noteq> report_pdf"
  "report_pdf\<lparr>name := ''report_v2.pdf''\<rparr> \<noteq> report_pdf"
  "report_pdf\<lparr>name := ''report_v3.pdf''\<rparr> \<noteq> report_pdf"
  "report_pdf\<lparr>name := ''report_v2.pdf''\<rparr> \<noteq> report_pdf\<lparr>name := ''report_v1.pdf''\<rparr>"
  "report_pdf\<lparr>name := ''report_v1.pdf''\<rparr> \<noteq> report_pdf\<lparr>name := ''report_v2.pdf''\<rparr>"
  "report_pdf\<lparr>name := ''report_v3.pdf''\<rparr> \<noteq> report_pdf\<lparr>name := ''report_v2.pdf''\<rparr>"
  by (simp_all add: report_pdf_def)

lemma first_free_now: "start \<le> k \<Longrightarrow> k \<le> start \<Longrightarrow> versioned dest k \<notin> fs \<Longrightarrow> first_free fs dest start k"
  by (auto simp: first_free_def)

lemma first_free_next:
  "versioned dest start \<in> fs \<Longrightarrow> first_free fs dest (Suc start) k \<Longrightarrow> first_free fs dest start k"
  unfolding first_free_def by (metis Suc_leD Suc_leI le_neq_implies_less)

theorem collision_resolution_first_free_witness:
  "get_safe_dest {} report_pdf = Some report_pdf \<and>
   get_safe_dest {report_pdf} report_pdf = Some (report_pdf\<lparr>name := ''report_v2.pdf''\<rparr>) \<and>
   get_safe_dest {report_pdf, report_pdf\<lparr>name := ''report_v2.pdf''\<rparr>} report_pdf
     = Some (report_pdf\<lparr>name := ''report_v3.pdf''\<rparr>) \<and>
   resolve_collision {report_pdf} report_pdf = Some (report_pdf\<lparr>name := ''report_v1.pdf''\<rparr>) \<and>
   resolve_collision {report_pdf, report_pdf\<lparr>name := ''report_v1.pdf''\<rparr>} report_pdf
     = Some (report_pdf\<lparr>name := ''report_v2.pdf''\<rparr>)"
proof -
  note d = report_versions_differ
  let ?v1 = "report_pdf\<lparr>name := ''report_v1.pdf''\<rparr>"
  let ?v2 = "report_pdf\<lparr>name := ''report_v2.pdf''\<rparr>"
  have a: "get_safe_dest {} report_pdf = Some report_pdf"
    using collision_resolution_first_free [of "{}" report_pdf] by simp
  have f2: "first_free {report_pdf} report_pdf 2 2"
    by (rule first_free_now) (simp_all add: versioned_report d)
  have b: "get_safe_dest {report_pdf} report_pdf = Some (versioned report_pdf 2)"
    using collision_resolution_first_free [of "{report_pdf}" report_pdf] f2
    by (auto dest: first_free_unique)
  have f1: "first_free {report_pdf} report_pdf 1 1"
    by (rule first_free_now) (simp_all add: versioned_report d)
  have c: "resolve_collision {report_pdf} report_pdf = Some (versioned report_pdf 1)"
    using collision_resolution_first_free [of "{report_pdf}" report_pdf] f1
    by (auto dest: first_free_unique)
  have f3: "first_free {report_pdf, ?v2} report_pdf 2 3"
  proof (rule first_free_next)
    show "versioned report_pdf 2 \<in> {report_pdf, ?v2}" by (simp add: versioned_report)
    show "first_free {report_pdf, ?v2} report_pdf (Suc 2) 3"
      by (rule first_free_now) (simp_all add: versioned_report d)
  qed
  have e: "get_safe_dest {report_pdf, ?v2} report_pdf = Some (versioned report_pdf 3)"
    using collision_resolution_first_free [of "{report_pdf, ?v2}" report_pdf] f3
    by (auto dest: first_free_unique)
  have f4: "first_free {report_pdf, ?v1} report_pdf 1 2"
  proof (rule first_free_next)
    show "versioned report_pdf 1 \<in> {report_pdf, ?v1}" by (simp add: versioned_report)
    show "first_free {report_pdf, ?v1} report_pdf (Suc 1) 2"
      by (rule first_free_now) (simp_all add: versioned_report d)
  qed
  have f: "resolve_collision {report_pdf, ?v1} report_pdf = Some (versioned report_pdf 2)"
    using collision_resolution_first_free [of "{report_pdf, ?v1}" report_pdf] f4
    by (auto dest: first_free_unique)
  show ?thesis using a b c e f by (simp add: versioned_report)
qed

text \<open>
  The claim as stated fails for \<open>ExecutionService._resolve_collision\<close>: beside an existing
  \<open>report.pdf\<close> it answers \<open>report_v1.pdf\<close>, not \<open>report_v2.pdf\<close>.
\<close>

theorem collision_resolution_counterexample:
  "resolve_collision {report_pdf} report_pdf = Some (report_pdf\<lparr>name := ''report_v1.pdf''\<rparr>) \<and>
   resolve_collision {report_pdf} report_pdf \<noteq> Some (report_pdf\<lparr>name := ''report_v2.pdf''\<rparr>)"
proof -
  have f1: "first_free {report_pdf} report_pdf 1 1"
    by (rule first_free_now) (simp_all add: versioned_report report_versions_differ)
  have "resolve_collision {report_pdf} report_pdf = Some (versioned report_pdf 1)"
    using resolve_collision_loop_first_free [OF f1] by (simp add: resolve_collision_def)
  then show ?thesis by (simp add: versioned_report report_versions_differ)
qed

section \<open>Properties of the executors\<close>

lemma resolve_collision_returns:
  assumes "finite fs"
  shows "\<exists>r. resolve_collision fs dest = Some r \<and> r \<notin> fs"
proof (cases "dest \<in> fs")
  case True
  obtain k where k: "first_free fs dest 1 k" using free_version_exists [OF assms] by blast
  then have "resolve_collision fs dest = Some (versioned dest k)"
    using True resolve_collision_loop_first_free [OF k] by (simp add: resolve_collision_def)
  moreover have "versioned dest k \<notin> fs" using k by (simp add: first_free_def)
  ultimately show ?thesis by blast
next
  case False
  then show ?thesis by (simp add: resolve_collision_def)
qed

lemma has_pending_append:
  "has_pending (w\<lparr>db := db w @ [\<lparr>tx_id = i, src_path = s, dest_path = d, action_type = a,
      status = ''pending'', rollback_data = r\<rparr>]\<rparr>) i s d"
  by (simp add: has_pending_def)

lemma has_pending_dirs [simp]: "has_pending (w\<lparr>dirs := x\<rparr>) i s d = has_pending w i s d"
  by (simp add: has_pending_def)

lemma status_of_fresh:
  assumes "i \<notin> tx_id ` set rows"
  shows "map status (filter (\<lambda>t. tx_id t = i)
           (map (\<lambda>t. if tx_id t = i then t\<lparr>status := s\<rparr> else t) (rows @ [t0\<lparr>tx_id := i\<rparr>]))) = [s]"
proof -
  have "filter (\<lambda>t. tx_id t = i) (map (\<lambda>t. if tx_id t = i then t\<lparr>status := s\<rparr> else t) rows) = []"
    using assms by (induction rows) auto
  then show ?thesis by simp
qed

lemma set_status_twice:
  "set_status i s (set_status i s' w) = set_status i s w"
  by (simp add: set_status_def o_def if_distrib cong: if_cong)

lemma set_status_fields [simp]:
  "files (set_status i s w) = files w" "dirs (set_status i s w) = dirs w"
  by (simp_all add: set_status_def)

lemma get_safe_dest_returns:
  assumes "finite fs"
  shows "\<exists>r. get_safe_dest fs dest = Some r \<and> r \<notin> fs"
proof (cases "dest \<in> fs")
  case True
  obtain k where k: "first_free fs dest 2 k" using free_version_exists [OF assms] by blast
  then have "get_safe_dest fs dest = Some (versioned dest k)"
    using True get_safe_dest_loop_first_free [OF k] by (simp add: get_safe_dest_def)
  moreover have "versioned dest k \<notin> fs" using k by (simp add: first_free_def)
  ultimately show ?thesis by blast
next
  case False
  then show ?thesis by (simp add: get_safe_dest_def)
qed

lemma shutil_move_moved:
  "shutil_move answer fs src dst = (fs', True) \<longleftrightarrow>
     src \<in> fs \<and> answer = Moved \<and> fs' = insert dst (fs - {src})"
  by (auto simp: shutil_move_def split: move_answer.splits)

lemma safe_move_run:
  assumes "finite (files w)"
  shows "\<exists>run ok.
           safe_move env dry_run now w src dest_folder new_name = Some (run, ok) \<and>
           run \<noteq> [] \<and> hd run = w \<and> guarded (nothing_recorded w) run \<and>
           db (last run) = db w \<and>
           (\<not> ok \<or> dry_run \<longrightarrow> nothing_recorded w (last run)) \<and>
           (ok \<and> \<not> dry_run \<longrightarrow>
              (\<exists>final_dest. final_dest \<notin> files w \<and>
                 files (last run) = insert final_dest (files w - {src}) \<and>
                 transactions (last run) = transactions w @
                   [\<lparr>tx_action = ''move'', tx_src = src, tx_dest = final_dest,
                     tx_timestamp = now\<rparr>]))"
proof (cases "src \<in> files w")
  case False
  then show ?thesis by (auto simp: safe_move_def nothing_recorded_def)
next
  case True
  define target where "target = \<lparr>parent = dest_folder,
     name = (case new_name of None \<Rightarrow> name src | Some n \<Rightarrow> if n \<noteq> [] then n else name src)\<rparr>"
  from get_safe_dest_returns [OF assms] obtain fd where
    fd: "get_safe_dest (files w) target = Some fd" and free: "fd \<notin> files w" by blast
  define w1 where "w1 = w\<lparr>dirs := insert dest_folder (dirs w)\<rparr>"
  obtain fs' moved where mv: "shutil_move (move_result env) (files w1) src fd = (fs', moved)"
    by (cases "shutil_move (move_result env) (files w1) src fd")
  define w2 where "w2 = w1\<lparr>files := fs'\<rparr>"
  define w3 where "w3 = w2\<lparr>recently_moved := (fd, now) # recently_moved w2\<rparr>"
  define w4 where "w4 = w3\<lparr>transactions := transactions w3 @
                     [\<lparr>tx_action = ''move'', tx_src = src, tx_dest = fd, tx_timestamp = now\<rparr>]\<rparr>"
  have n0: "nothing_recorded w w" "nothing_recorded w w1" "nothing_recorded w w2"
    by (simp_all add: nothing_recorded_def w1_def w2_def)
  have f34: "files w3 = files w2" "dirs w3 = dirs w2" "files w4 = files w2" "dirs w4 = dirs w2"
    "files (save_transactions env w4) = files w2" "dirs (save_transactions env w4) = dirs w2"
    "db (save_transactions env w4) = db w"
    by (simp_all add: w1_def w2_def w3_def w4_def save_transactions_def)
  have t5: "transactions (save_transactions env w4) = transactions w @
       [\<lparr>tx_action = ''move'', tx_src = src, tx_dest = fd, tx_timestamp = now\<rparr>]"
    by (simp add: w1_def w2_def w3_def w4_def save_transactions_def)
  have sm: "safe_move env dry_run now w src dest_folder new_name =
      Some (if dry_run then ([w], True)
            else if \<not> mkdir_ok env then ([w], False)
            else if \<not> moved then ([w, w1, w2], False)
            else ([w, w1, w2, w3, w4, save_transactions env w4], True))"
    using True fd mv
    by (simp add: safe_move_def Let_def target_def [symmetric] w1_def [symmetric]
        w2_def [symmetric] w3_def [symmetric] w4_def [symmetric])
  show ?thesis
  proof (cases "dry_run \<or> \<not> mkdir_ok env")
    case True
    then show ?thesis using sm n0 by auto
  next
    case go: False
    show ?thesis
    proof (cases moved)
      case False
      then show ?thesis using sm go n0 by (auto simp: nothing_recorded_def w1_def w2_def)
    next
      case True
      with mv have "fs' = insert fd (files w - {src})"
        by (simp add: shutil_move_moved w1_def)
      then have "files w2 = insert fd (files w - {src})" by (simp add: w2_def)
      then show ?thesis using sm go True n0 f34 t5 free by auto
    qed
  qed
qed

text \<open>
  Claim C6, as amended. On a filesystem with finitely many paths, \<open>ExecutionService.execute_move\<close>
  with a fresh id returns, and every step of it that changes the files or the directories
  starts with a pending record of this move committed to the database. The record ends as
  \<open>committed\<close>, with the file at its resolved destination, when \<open>mkdir\<close>, the move and the rest
  of the \<open>try\<close> block succeed, and as \<open>failed\<close> when \<open>mkdir\<close> or the move fails.
  \<open>Executor.safe_move\<close> returns as well, but writes no pending record: every step of it that
  changes the files or the directories starts with nothing recorded yet, the database is never
  touched, and the log entry is appended only when the move succeeded.
\<close>

theorem execute_move_pending_first:
  assumes fin: "finite (files w)" and fresh: "new_id \<notin> tx_id ` set (db w)"
  shows "(\<exists>final_dest run err.
            resolve_collision (files w) dest = Some final_dest \<and>
            execute_move env new_id w src dest = Some (run, err) \<and>
            run \<noteq> [] \<and> hd run = w \<and>
            guarded (\<lambda>v. has_pending v new_id src final_dest) run \<and>
            (mkdir_ok env \<and> src \<in> files w \<and> move_result env = Moved \<and> notify_ok env \<longrightarrow>
               err = None \<and> status_of (last run) new_id = [''committed''] \<and>
               files (last run) = insert final_dest (files w - {src})) \<and>
            (\<not> mkdir_ok env \<or> src \<notin> files w \<or> move_result env \<noteq> Moved \<longrightarrow>
               err = Some OSError \<and> status_of (last run) new_id = [''failed''])) \<and>
         (\<exists>run ok.
            safe_move env dry_run now w src dest_folder new_name = Some (run, ok) \<and>
            run \<noteq> [] \<and> hd run = w \<and> guarded (nothing_recorded w) run \<and>
            db (last run) = db w \<and>
            (\<not> ok \<or> dry_run \<longrightarrow> nothing_recorded w (last run)) \<and>
            (ok \<and> \<not> dry_run \<longrightarrow>
               (\<exists>final_dest. final_dest \<notin> files w \<and>
                  files (last run) = insert final_dest (files w - {src}) \<and>
                  transactions (last run) = transactions w @
                    [\<lparr>tx_action = ''move'', tx_src = src, tx_dest = final_dest,
                      tx_timestamp = now\<rparr>])))"
proof (rule conjI)
  from resolve_collision_returns [OF fin] obtain fd where
    fd: "resolve_collision (files w) dest = Some fd" by blast
  define tx where "tx = \<lparr>tx_id = new_id, src_path = src, dest_path = fd,
                       action_type = ''move'', status = ''pending'', rollback_data = src\<rparr>"
  define w1 where "w1 = w\<lparr>db := db w @ [tx]\<rparr>"
  define w2 where "w2 = w1\<lparr>dirs := insert (parent fd) (dirs w1)\<rparr>"
  obtain fs' moved where mv: "shutil_move (move_result env) (files w2) src fd = (fs', moved)"
    by (cases "shutil_move (move_result env) (files w2) src fd")
  define w3 where "w3 = w2\<lparr>files := fs'\<rparr>"
  define w4 where "w4 = set_status new_id ''committed'' w3"
  have p1: "has_pending w1 new_id src fd" unfolding w1_def tx_def by (rule has_pending_append)
  have p2: "has_pending w2 new_id src fd" unfolding w2_def using p1 by simp
  have txi: "tx = tx\<lparr>tx_id := new_id\<rparr>" by (simp add: tx_def)
  have st: "status_of (set_status new_id s v) new_id = [s]" if "db v = db w @ [tx]" for s v
    unfolding status_of_def set_status_def using that status_of_fresh [OF fresh, of s tx] txi
    by simp
  have f12: "files w1 = files w" "files w2 = files w" "dirs w1 = dirs w"
    by (simp_all add: w1_def w2_def)
  have d123: "db w1 = db w @ [tx]" "db w3 = db w @ [tx]" by (simp_all add: w1_def w2_def w3_def)
  have f34: "files w3 = fs'" "files w4 = fs'" "dirs w3 = dirs w2" "dirs w4 = dirs w2"
    by (simp_all add: w3_def w4_def)
  have mvd: "moved \<longleftrightarrow> src \<in> files w \<and> move_result env = Moved"
    using mv by (cases moved) (auto simp: shutil_move_def f12 split: move_answer.splits if_splits)
  have em: "execute_move env new_id w src dest =
      Some (if \<not> mkdir_ok env then ([w, w1, set_status new_id ''failed'' w1], Some OSError)
            else if \<not> moved then ([w, w1, w2, w3, set_status new_id ''failed'' w3], Some OSError)
            else if notify_ok env then ([w, w1, w2, w3, w4], None)
            else ([w, w1, w2, w3, w4, set_status new_id ''failed'' w4], Some NotifyError))"
    using fd fresh mv
    by (simp add: execute_move_def Let_def tx_def [symmetric] w1_def [symmetric]
        w2_def [symmetric] w3_def [symmetric] w4_def [symmetric])
  show "\<exists>final_dest run err.
            resolve_collision (files w) dest = Some final_dest \<and>
            execute_move env new_id w src dest = Some (run, err) \<and>
            run \<noteq> [] \<and> hd run = w \<and>
            guarded (\<lambda>v. has_pending v new_id src final_dest) run \<and>
            (mkdir_ok env \<and> src \<in> files w \<and> move_result env = Moved \<and> notify_ok env \<longrightarrow>
               err = None \<and> status_of (last run) new_id = [''committed''] \<and>
               files (last run) = insert final_dest (files w - {src})) \<and>
            (\<not> mkdir_ok env \<or> src \<notin> files w \<or> move_result env \<noteq> Moved \<longrightarrow>
               err = Some OSError \<and> status_of (last run) new_id = [''failed''])"
  proof (cases "mkdir_ok env")
    case False
    then show ?thesis using em fd f12 st [OF d123(1)] by simp
  next
    case mk: True
    show ?thesis
    proof (cases moved)
      case False
      then show ?thesis using em fd mk mvd f12 f34 p1 p2 st [OF d123(2)] by auto
    next
      case True
      with mv have fs': "fs' = insert fd (files w - {src})"
        by (simp add: shutil_move_moved f12)
      have s4: "status_of w4 new_id = [''committed'']" unfolding w4_def by (rule st [OF d123(2)])
      show ?thesis
      proof (cases "notify_ok env")
        case ok: True
        then show ?thesis using em fd mk True mvd f12 f34 fs' p1 p2 s4 by simp
      next
        case no: False
        then show ?thesis using em fd mk True mvd f12 f34 fs' p1 p2 by simp
      qed
    qed
  qed
next
  show "\<exists>run ok.
            safe_move env dry_run now w src dest_folder new_name = Some (run, ok) \<and>
            run \<noteq> [] \<and> hd run = w \<and> guarded (nothing_recorded w) run \<and>
            db (last run) = db w \<and>
            (\<not> ok \<or> dry_run \<longrightarrow> nothing_recorded w (last run)) \<and>
            (ok \<and> \<not> dry_run \<longrightarrow>
               (\<exists>final_dest. final_dest \<notin> files w \<and>
                  files (last run) = insert final_dest (files w - {src}) \<and>
                  transactions (last run) = transactions w @
                    [\<lparr>tx_action = ''move'', tx_src = src, tx_dest = final_dest,
                      tx_timestamp = now\<rparr>]))"
    by (rule safe_move_run [OF fin])
qed

lemma inbox_not_report [simp]: "inbox_pdf \<noteq> report_pdf" "report_pdf \<noteq> inbox_pdf"
  by (simp_all add: inbox_pdf_def report_pdf_def)

theorem execute_move_pending_first_witness:
  "map (\<lambda>v. status_of v ''tx-1'') (run_of (execute_move all_ok ''tx-1'' start_world inbox_pdf report_pdf))
     = [[], [''pending''], [''pending''], [''pending''], [''committed'']] \<and>
   map files (run_of (execute_move all_ok ''tx-1'' start_world inbox_pdf report_pdf))
     = [{inbox_pdf}, {inbox_pdf}, {inbox_pdf}, {report_pdf}, {report_pdf}] \<and>
   map (\<lambda>v. status_of v ''tx-1'')
       (run_of (execute_move (all_ok\<lparr>move_result := LeftCopy\<rparr>) ''tx-1'' start_world inbox_pdf report_pdf))
     = [[], [''pending''], [''pending''], [''pending''], [''failed'']] \<and>
   map files (run_of (execute_move (all_ok\<lparr>move_result := LeftCopy\<rparr>) ''tx-1'' start_world inbox_pdf report_pdf))
     = [{inbox_pdf}, {inbox_pdf}, {inbox_pdf}, {report_pdf, inbox_pdf}, {report_pdf, inbox_pdf}] \<and>
   map transactions (run_of (safe_move all_ok False 0 start_world inbox_pdf ''/home/u/Documents'' None))
     = [[], [], [], [], [moved_entry], [moved_entry]]"
proof -
  have fin: "finite (files start_world)" by (simp add: start_world_def)
  have fresh: "''tx-1'' \<notin> tx_id ` set (db start_world)" by (simp add: start_world_def)
  have rc: "resolve_collision (files start_world) report_pdf = Some report_pdf"
    by (simp add: resolve_collision_def start_world_def)
  have gs: "get_safe_dest (files start_world) \<lparr>parent = ''/home/u/Documents'', name = name inbox_pdf\<rparr>
      = Some report_pdf"
    by (simp add: get_safe_dest_def inbox_pdf_def report_pdf_def start_world_def)
  have sm: "map transactions (run_of (safe_move all_ok False 0 start_world inbox_pdf ''/home/u/Documents'' None))
     = [[], [], [], [], [moved_entry], [moved_entry]]"
    using execute_move_pending_first [OF fin fresh, of report_pdf all_ok inbox_pdf False 0 "''/home/u/Documents''" None]
    by (simp add: safe_move_def gs Let_def shutil_move_def all_ok_def save_transactions_def moved_entry_def)
       (simp add: start_world_def)
  have em: "map (\<lambda>v. status_of v ''tx-1'') (run_of (execute_move all_ok ''tx-1'' start_world inbox_pdf report_pdf))
     = [[], [''pending''], [''pending''], [''pending''], [''committed'']] \<and>
   map files (run_of (execute_move all_ok ''tx-1'' start_world inbox_pdf report_pdf))
     = [{inbox_pdf}, {inbox_pdf}, {inbox_pdf}, {report_pdf}, {report_pdf}] \<and>
   map (\<lambda>v. status_of v ''tx-1'')
       (run_of (execute_move (all_ok\<lparr>move_result := LeftCopy\<rparr>) ''tx-1'' start_world inbox_pdf report_pdf))
     = [[], [''pending''], [''pending''], [''pending''], [''failed'']] \<and>
   map files (run_of (execute_move (all_ok\<lparr>move_result := LeftCopy\<rparr>) ''tx-1'' start_world inbox_pdf report_pdf))
     = [{inbox_pdf}, {inbox_pdf}, {inbox_pdf}, {report_pdf, inbox_pdf}, {report_pdf, inbox_pdf}]"
    using execute_move_pending_first [OF fin fresh, of report_pdf all_ok inbox_pdf]
      execute_move_pending_first [OF fin fresh, of report_pdf "all_ok\<lparr>move_result := LeftCopy\<rparr>" inbox_pdf]
    by (simp add: execute_move_def rc all_ok_def Let_def shutil_move_def set_status_def status_of_def)
       (simp add: start_world_def)
  from em sm show ?thesis by simp
qed

text \<open>
  The claim as stated fails for \<open>Executor.safe_move\<close>: the file is moved while the transaction
  list, the log file and the database are all empty; the entry, which has no status, is appended
  only afterwards.
\<close>

theorem safe_move_logs_after_move_counterexample:
  "map files (run_of (safe_move all_ok False 0 start_world inbox_pdf ''/home/u/Documents'' None))
     = [{inbox_pdf}, {inbox_pdf}, {report_pdf}, {report_pdf}, {report_pdf}, {report_pdf}] \<and>
   map transactions (run_of (safe_move all_ok False 0 start_world inbox_pdf ''/home/u/Documents'' None))
     = [[], [], [], [], [moved_entry], [moved_entry]] \<and>
   map transaction_log_file
       (run_of (safe_move all_ok False 0 start_world inbox_pdf ''/home/u/Documents'' None))
     = [None, None, None, None, None, Some [moved_entry]] \<and>
   map db (run_of (safe_move all_ok False 0 start_world inbox_pdf ''/home/u/Documents'' None))
     = [[], [], [], [], [], []]"
proof -
  have gs: "get_safe_dest {inbox_pdf} \<lparr>parent = ''/home/u/Documents'', name = name inbox_pdf\<rparr> = Some report_pdf"
    by (simp add: get_safe_dest_def inbox_pdf_def report_pdf_def)
  show ?thesis
    by (simp add: safe_move_def start_world_def gs all_ok_def Let_def shutil_move_def
        save_transactions_def moved_entry_def)
qed

text \<open>
  Claim C7, as amended. On an empty transaction list \<open>undo_last\<close> fails and changes nothing. On
  a non-empty list it always removes the last entry from the in-memory list; it succeeds exactly
  when that entry is a move whose destination exists, whose source does not, and the move back
  succeeds; then the file is back at its source and the shortened list is written to the
  log file. When it fails, the log file is unchanged, and so are the files, unless the move
  back was attempted and raised with its copy left behind.
\<close>

theorem undo_last_outcomes:
  "(transactions w = [] \<longrightarrow> undo_last env w = (w, False)) \<and>
   (transactions w \<noteq> [] \<longrightarrow>
      (case undo_last env w of
         (w', ok) \<Rightarrow>
           transactions w' = butlast (transactions w) \<and>
           (ok \<longleftrightarrow> tx_action (last (transactions w)) = ''move'' \<and>
                   tx_dest (last (transactions w)) \<in> files w \<and>
                   tx_src (last (transactions w)) \<notin> files w \<and> move_result env = Moved) \<and>
           (ok \<longrightarrow> files w' = insert (tx_src (last (transactions w)))
                                  (files w - {tx_dest (last (transactions w))}) \<and>
                   (save_ok env \<longrightarrow> transaction_log_file w' = Some (butlast (transactions w)))) \<and>
           (\<not> ok \<longrightarrow>
              transaction_log_file w' = transaction_log_file w \<and>
              files w' =
                (if tx_action (last (transactions w)) = ''move'' \<and>
                    tx_dest (last (transactions w)) \<in> files w \<and>
                    tx_src (last (transactions w)) \<notin> files w \<and> move_result env = LeftCopy
                 then insert (tx_src (last (transactions w))) (files w)
                 else files w))))"
  by (auto simp: undo_last_def Let_def shutil_move_def save_transactions_def
      split: if_splits move_answer.splits)

theorem undo_last_outcomes_witness:
  "undo_last all_ok start_world = (start_world, False) \<and>
   undo_last all_ok moved_world =
     (moved_world\<lparr>files := {inbox_pdf}, transactions := [], transaction_log_file := Some []\<rparr>, True) \<and>
   undo_last all_ok (moved_world\<lparr>files := {report_pdf, inbox_pdf}\<rparr>) =
     (moved_world\<lparr>files := {report_pdf, inbox_pdf}, transactions := []\<rparr>, False)"
  using undo_last_outcomes [of start_world all_ok] undo_last_outcomes [of moved_world all_ok]
    undo_last_outcomes [of "moved_world\<lparr>files := {report_pdf, inbox_pdf}\<rparr>" all_ok]
  by (simp add: undo_last_def start_world_def moved_world_def moved_entry_def all_ok_def Let_def
      shutil_move_def save_transactions_def)

text \<open>
  The claim as stated fails: when the recorded destination no longer exists, \<open>undo_last\<close> reports
  failure and the in-memory transaction list has lost its entry.
\<close>

theorem undo_last_failure_counterexample:
  "undo_last all_ok stale_world = (stale_world\<lparr>transactions := []\<rparr>, False) \<and>
   transactions stale_world = [moved_entry] \<and>
   transactions (fst (undo_last all_ok stale_world)) \<noteq> transactions stale_world"
  by (simp add: undo_last_def stale_world_def moved_world_def moved_entry_def Let_def)

end
